theory Spec2Isabelle
  imports Main "HOL-Library.AList"
begin

section \<open>Errors\<close>

text \<open>
  The Python exceptions the modelled code raises, as values.  A fallible operation returns
  \<open>error + 'a\<close>, with \<open>Inl\<close> for the raised exception.  Every constructor is a subclass of
  Python's \<open>Exception\<close>, which is what \<open>except Exception\<close> in \<open>server.py\<close> catches.
  \<^item> \<open>ValueError\<close>: raised by \<open>fetch_page\<close> and by the validators of \<open>helpers\<close>;
  \<^item> \<open>InvalidRequest\<close>: raised by the route for an unknown title;
  \<^item> \<open>SqlSyntaxError\<close>: what \<open>cursor.execute\<close> raises on a malformed statement;
  \<^item> \<open>DataError\<close>: what \<open>cursor.execute\<close> raises on a value the database cannot hold;
  \<^item> \<open>TypeError\<close>: an order comparison with \<open>None\<close>;
  \<^item> \<open>OperationalError\<close>: any other failure of the database connection.
\<close>

datatype error =
    ValueError string
  | InvalidRequest string
  | SqlSyntaxError
  | DataError
  | TypeError
  | OperationalError string

section \<open>The SQL text built from a collection of page IDs\<close>

text \<open>
  \<open>fetch_links_helper\<close> and \<open>fetch_links_count_helper\<close> both start with
  \<^verbatim>\<open>page_ids = str(tuple(page_ids)).replace(',)', ')')\<close>
  and splice the text after \<^verbatim>\<open>WHERE id IN\<close>.  The text is modelled as Python prints it.
\<close>

text \<open>\<open>str(n)\<close> for a non-negative integer: its decimal digits.\<close>

fun digits_of :: "nat \<Rightarrow> string" where
  "digits_of n =
     (if n < 10 then [char_of (48 + n)]
      else digits_of (n div 10) @ [char_of (48 + n mod 10)])"

declare digits_of.simps [simp del]

text \<open>\<open>str(i)\<close> for a Python integer.\<close>

definition py_str_int :: "int \<Rightarrow> string" where
  "py_str_int i = (if i < 0 then CHR ''-'' # digits_of (nat (- i)) else digits_of (nat i))"

text \<open>\<open>', '.join(ws)\<close>.\<close>

fun join_comma :: "string list \<Rightarrow> string" where
  "join_comma [] = []"
| "join_comma [w] = w"
| "join_comma (w # v # ws) = w @ '', '' @ join_comma (v # ws)"

text \<open>
  \<open>str(tuple(xs))\<close>: the items separated by a comma and a space, in parentheses; a tuple of
  one item is printed with a trailing comma.
\<close>

definition py_str_tuple :: "int list \<Rightarrow> string" where
  "py_str_tuple xs =
     ''('' @ join_comma (map py_str_int xs) @ (if length xs = 1 then '','' else []) @ '')''"

text \<open>
  \<open>s.replace(old, new)\<close> for a non-empty \<open>old\<close>: the occurrences are replaced from the left,
  without overlap.  (The only call has \<open>old = ',)'\<close>.)
\<close>

function py_replace :: "string \<Rightarrow> string \<Rightarrow> string \<Rightarrow> string" where
  "py_replace old new [] = []"
| "py_replace old new (c # cs) =
     (if old \<noteq> [] \<and> take (length old) (c # cs) = old
      then new @ py_replace old new (drop (length old) (c # cs))
      else c # py_replace old new cs)"
  by pat_completeness auto
termination
  by (relation "measure (\<lambda>(old, new, s). length s)") auto

definition page_ids_sql :: "int list \<Rightarrow> string" where
  "page_ids_sql page_ids = py_replace '',)'' '')'' (py_str_tuple page_ids)"

subsection \<open>How the database reads the list after \<open>IN\<close>\<close>

text \<open>
  The database is not part of the repository; what it does with the statement is modelled
  here.  After \<open>IN\<close> SQL wants a parenthesised list of at least one expression, separated by
  commas; here each is an integer literal, possibly signed and preceded by blanks.  Anything
  else, the empty list \<^verbatim>\<open>()\<close> and a trailing comma included, is a syntax error (\<open>None\<close>).
\<close>

definition is_digit :: "char \<Rightarrow> bool" where
  "is_digit c = (48 \<le> (of_char c :: nat) \<and> (of_char c :: nat) \<le> 57)"

definition nat_of_digits :: "string \<Rightarrow> nat" where
  "nat_of_digits s = foldl (\<lambda>acc c. 10 * acc + (of_char c - 48)) 0 s"

fun split_commas :: "string \<Rightarrow> string list" where
  "split_commas [] = [[]]"
| "split_commas (c # cs) =
     (if c = CHR '','' then [] # split_commas cs
      else (case split_commas cs of [] \<Rightarrow> [[c]] | w # ws \<Rightarrow> (c # w) # ws))"

definition sql_int_literal :: "string \<Rightarrow> int option" where
  "sql_int_literal s =
     (case dropWhile (\<lambda>c. c = CHR '' '') s of
        [] \<Rightarrow> None
      | c # cs \<Rightarrow>
          if c = CHR ''-''
          then (if cs \<noteq> [] \<and> list_all is_digit cs then Some (- int (nat_of_digits cs)) else None)
          else if list_all is_digit (c # cs) then Some (int (nat_of_digits (c # cs)))
          else None)"

definition sql_in_list :: "string \<Rightarrow> int list option" where
  "sql_in_list s =
     (case s of
        [] \<Rightarrow> None
      | c # cs \<Rightarrow>
          if c = CHR ''('' \<and> cs \<noteq> [] \<and> last cs = CHR '')''
          then those (map sql_int_literal (split_commas (butlast cs)))
          else None)"

section \<open>The database\<close>

text \<open>
  The tables the statements of \<open>database.py\<close> read, as lists of rows in storage order:
  \<^item> \<open>pages(id, title, is_redirect)\<close>, read by \<open>fetch_page\<close> as triples;
  \<^item> \<open>redirects(source_id, target_id)\<close>;
  \<^item> \<open>links(id, outgoing_links, incoming_links, outgoing_links_count, incoming_links_count)\<close>:
    for one page, the pages it links to, the pages that link to it, and the two stored
    counters.
  The two neighbour columns are lists of page IDs.
\<close>

record link_row =
  row_id :: int
  outgoing_links :: "int list"
  incoming_links :: "int list"
  outgoing_links_count :: int
  incoming_links_count :: int

record database =
  pages :: "(int \<times> string \<times> bool) list"
  redirects :: "(int \<times> int) list"
  links :: "link_row list"

text \<open>
  The column a helper is asked for.  The source passes the column's name as a string and
  splices it into the statement; the only callers pass these four literals.
\<close>

datatype links_column = Outgoing_links | Incoming_links

datatype count_column = Outgoing_links_count | Incoming_links_count

fun links_of :: "links_column \<Rightarrow> link_row \<Rightarrow> int list" where
  "links_of Outgoing_links r = outgoing_links r"
| "links_of Incoming_links r = incoming_links r"

fun count_of :: "count_column \<Rightarrow> link_row \<Rightarrow> int" where
  "count_of Outgoing_links_count r = outgoing_links_count r"
| "count_of Incoming_links_count r = incoming_links_count r"

text \<open>
  \<^verbatim>\<open>SELECT id, <column> FROM links WHERE id IN <page_ids>;\<close>
  The cursor yields one pair for each row of \<open>links\<close> whose id is in the list, and nothing
  for an id that has no row.
\<close>

definition fetch_links_helper ::
  "database \<Rightarrow> int list \<Rightarrow> links_column \<Rightarrow> error + (int \<times> int list) list" where
  "fetch_links_helper db page_ids outcoming_or_incoming_links =
     (case sql_in_list (page_ids_sql page_ids) of
        None \<Rightarrow> Inl SqlSyntaxError
      | Some ids \<Rightarrow>
          Inr (map (\<lambda>r. (row_id r, links_of outcoming_or_incoming_links r))
                 (filter (\<lambda>r. row_id r \<in> set ids) (links db))))"

definition fetch_outgoing_links :: "database \<Rightarrow> int list \<Rightarrow> error + (int \<times> int list) list" where
  "fetch_outgoing_links db page_ids = fetch_links_helper db page_ids Outgoing_links"

definition fetch_incoming_links :: "database \<Rightarrow> int list \<Rightarrow> error + (int \<times> int list) list" where
  "fetch_incoming_links db page_ids = fetch_links_helper db page_ids Incoming_links"

text \<open>
  \<^verbatim>\<open>SELECT SUM(<column>) FROM links WHERE id IN <page_ids>;\<close> and \<open>fetchone()[0]\<close>.
  SQL's \<open>SUM\<close> over no row at all is \<open>NULL\<close>, which the driver hands over as \<open>None\<close>.
\<close>

definition fetch_links_count_helper ::
  "database \<Rightarrow> int list \<Rightarrow> count_column \<Rightarrow> error + int option" where
  "fetch_links_count_helper db page_ids incoming_or_outgoing_links_count =
     (case sql_in_list (page_ids_sql page_ids) of
        None \<Rightarrow> Inl SqlSyntaxError
      | Some ids \<Rightarrow>
          (let counts = map (count_of incoming_or_outgoing_links_count)
                          (filter (\<lambda>r. row_id r \<in> set ids) (links db))
           in Inr (if counts = [] then None else Some (sum_list counts))))"

definition fetch_outgoing_links_count :: "database \<Rightarrow> int list \<Rightarrow> error + int option" where
  "fetch_outgoing_links_count db page_ids = fetch_links_count_helper db page_ids Outgoing_links_count"

definition fetch_incoming_links_count :: "database \<Rightarrow> int list \<Rightarrow> error + int option" where
  "fetch_incoming_links_count db page_ids = fetch_links_count_helper db page_ids Incoming_links_count"

section \<open>The bidirectional breadth-first search\<close>

text \<open>
  \<open>database.py\<close> imports \<open>breadth_first_search\<close> from a module of the repository that is not
  among the sources.  The search is therefore modelled from the specification (sections 3,
  4.2 and 4.3), on top of the four store operations of \<open>database.py\<close> modelled above, which
  are what the search is handed as its data-access handle.
\<close>

text \<open>
  Modelled from the spec: the search direction of module \<open>breadth_first_search\<close> (forward
  from the source over outgoing links, backward from the target over incoming links).
\<close>

datatype direction = Forward | Backward

text \<open>
  Modelled from the spec: how module \<open>breadth_first_search\<close> picks the side to expand.  The
  engine is cost based; the two forced variants are the ones section 8 compares it with.
\<close>

datatype strategy = Cost_based | Always_forward | Always_backward

text \<open>
  Modelled from the spec: a frontier generation of module \<open>breadth_first_search\<close>, "a mapping
  from node ID to the set of already-visited predecessor node IDs that reached it at the
  current distance", in insertion order.  A visited-map, "accumulated across all
  generations so far", is the list of the generations, the current one first; the last one
  holds the start node alone, with no parent.
\<close>

type_synonym generation = "(int \<times> int list) list"

text \<open>Modelled from the spec: the node IDs of a visited-map of module \<open>breadth_first_search\<close>.\<close>

definition visited_nodes :: "generation list \<Rightarrow> int list" where
  "visited_nodes gens = concat (map (map fst) gens)"

text \<open>
  Modelled from the spec: the frontier of module \<open>breadth_first_search\<close>, the nodes newly
  reached at the current generation.
\<close>

definition frontier :: "generation list \<Rightarrow> int list" where
  "frontier gens = (case gens of [] \<Rightarrow> [] | g # _ \<Rightarrow> map fst g)"

text \<open>
  Modelled from the spec: step 3b of module \<open>breadth_first_search\<close>, for one neighbour that
  is not in an earlier generation.  A neighbour met for the first time enters the generation
  being built with \<open>node\<close> as its parent; one that the generation being built already holds
  gets \<open>node\<close> as one more parent.
\<close>

definition record_parent :: "generation \<Rightarrow> int \<Rightarrow> int \<Rightarrow> generation" where
  "record_parent next neighbor node =
     (case map_of next neighbor of
        None \<Rightarrow> next @ [(neighbor, [node])]
      | Some parents \<Rightarrow> AList.update neighbor (List.insert node parents) next)"

text \<open>
  Modelled from the spec: step 3b of module \<open>breadth_first_search\<close>, for one neighbour.
  "Neighbors already visited in a strictly earlier generation of the same direction are not
  re-added."
\<close>

definition visit_neighbor :: "generation list \<Rightarrow> int \<Rightarrow> int \<Rightarrow> generation \<Rightarrow> generation" where
  "visit_neighbor visited node neighbor next =
     (if neighbor \<in> set (visited_nodes visited) then next else record_parent next neighbor node)"

text \<open>
  Modelled from the spec: step 3b of module \<open>breadth_first_search\<close>, the generation built
  from the (node, neighbours) pairs the store returned for the current frontier.
\<close>

definition expand_frontier :: "generation list \<Rightarrow> (int \<times> int list) list \<Rightarrow> generation" where
  "expand_frontier visited rows =
     fold (\<lambda>(node, neighbors) next. fold (visit_neighbor visited node) neighbors next) rows []"

text \<open>
  Modelled from the spec: the search state of module \<open>breadth_first_search\<close>, "the pair of
  full visited-maps (forward, backward) accumulated across all generations so far, plus the
  current half-distance counters for each direction".
\<close>

record search_state =
  visited_forward :: "generation list"
  visited_backward :: "generation list"
  forward_distance :: nat
  backward_distance :: nat

text \<open>
  Modelled from the spec: step 2 of module \<open>breadth_first_search\<close>, the state a search
  starts from.
\<close>

definition initial_state :: "int \<Rightarrow> int \<Rightarrow> search_state" where
  "initial_state source target =
     \<lparr>visited_forward = [[(source, [])]], visited_backward = [[(target, [])]],
      forward_distance = 0, backward_distance = 0\<rparr>"

text \<open>
  Modelled from the spec: step 3a of module \<open>breadth_first_search\<close>.  The cost of a side is
  the degree sum of its frontier; the cheaper side is expanded, the forward side on a tie.
  The two sums are what \<open>fetch_outgoing_links_count\<close> and \<open>fetch_incoming_links_count\<close> of
  \<open>database.py\<close> return.  A failure of the store is passed on.  Where a sum is \<open>None\<close> the
  two costs cannot be ordered: Python raises \<open>TypeError\<close> on the comparison.  The forced
  variants do not ask for the costs.
\<close>

definition choose_direction :: "strategy \<Rightarrow> database \<Rightarrow> search_state \<Rightarrow> error + direction" where
  "choose_direction strat db st =
     (case strat of
        Always_forward \<Rightarrow> Inr Forward
      | Always_backward \<Rightarrow> Inr Backward
      | Cost_based \<Rightarrow>
          (case fetch_outgoing_links_count db (frontier (visited_forward st)) of
             Inl e \<Rightarrow> Inl e
           | Inr forward_cost \<Rightarrow>
               (case fetch_incoming_links_count db (frontier (visited_backward st)) of
                  Inl e \<Rightarrow> Inl e
                | Inr backward_cost \<Rightarrow>
                    (case (forward_cost, backward_cost) of
                       (Some f, Some b) \<Rightarrow> Inr (if f \<le> b then Forward else Backward)
                     | _ \<Rightarrow> Inl TypeError))))"

text \<open>
  Modelled from the spec: steps 3b and 3c of module \<open>breadth_first_search\<close>.  One bulk fetch
  for the frontier of the chosen side (\<open>fetch_outgoing_links\<close> or \<open>fetch_incoming_links\<close> of
  \<open>database.py\<close>); the generation built from it becomes that side's frontier and its
  distance counter goes up by one.
\<close>

definition expand :: "database \<Rightarrow> direction \<Rightarrow> search_state \<Rightarrow> error + search_state" where
  "expand db d st =
     (case d of
        Forward \<Rightarrow>
          (case fetch_outgoing_links db (frontier (visited_forward st)) of
             Inl e \<Rightarrow> Inl e
           | Inr rows \<Rightarrow>
               Inr (st\<lparr>visited_forward :=
                         expand_frontier (visited_forward st) rows # visited_forward st,
                       forward_distance := forward_distance st + 1\<rparr>))
      | Backward \<Rightarrow>
          (case fetch_incoming_links db (frontier (visited_backward st)) of
             Inl e \<Rightarrow> Inl e
           | Inr rows \<Rightarrow>
               Inr (st\<lparr>visited_backward :=
                         expand_frontier (visited_backward st) rows # visited_backward st,
                       backward_distance := backward_distance st + 1\<rparr>)))"

text \<open>
  Modelled from the spec: step 3d of module \<open>breadth_first_search\<close>, "the intersection of
  forward-visited node IDs and backward-visited node IDs".
\<close>

definition visited_intersection :: "search_state \<Rightarrow> int list" where
  "visited_intersection st =
     filter (\<lambda>v. v \<in> set (visited_nodes (visited_backward st)))
       (visited_nodes (visited_forward st))"

text \<open>
  Modelled from the spec: the generations of a visited-map of module \<open>breadth_first_search\<close>
  up to the one that reached a node (step 5 speaks of the "forward-distance-reached" and
  the "backward-distance-reached" of a node).
\<close>

fun generations_until :: "generation list \<Rightarrow> int \<Rightarrow> generation list option" where
  "generations_until [] v = None"
| "generations_until (g # gs) v =
     (if v \<in> fst ` set g then Some (g # gs) else generations_until gs v)"

text \<open>
  Modelled from the spec: the distance at which module \<open>breadth_first_search\<close> reached a
  node, the number of generations before the node's own.
\<close>

definition distance_reached :: "generation list \<Rightarrow> int \<Rightarrow> nat option" where
  "distance_reached gens v = map_option (\<lambda>gs. length gs - 1) (generations_until gens v)"

text \<open>
  Modelled from the spec: step 5 of module \<open>breadth_first_search\<close>, "all nodes present in
  both visited-maps whose sum of forward-distance-reached and backward-distance-reached
  equals the minimal total distance found in step 3d", that distance being the sum of the
  two distance counters.
\<close>

definition meeting_nodes :: "search_state \<Rightarrow> int list" where
  "meeting_nodes st =
     filter
       (\<lambda>v. case (distance_reached (visited_forward st) v,
                  distance_reached (visited_backward st) v) of
               (Some a, Some b) \<Rightarrow> a + b = forward_distance st + backward_distance st
             | _ \<Rightarrow> False)
       (visited_nodes (visited_forward st))"

text \<open>
  Modelled from the spec: the path reconstructor of module \<open>breadth_first_search\<close> (section
  4.3), from the source to a node: "for each parent of the current node, prepend and
  recurse; base case is reaching source with no parents".  The parents of a node are in
  the generation before the node's own.
\<close>

fun paths_from_source :: "generation list \<Rightarrow> int \<Rightarrow> int list list" where
  "paths_from_source [] v = []"
| "paths_from_source (g # gs) v =
     (case map_of g v of
        None \<Rightarrow> []
      | Some parents \<Rightarrow>
          if parents = [] then [[v]]
          else concat (map (\<lambda>u. map (\<lambda>p. p @ [v]) (paths_from_source gs u)) parents))"

text \<open>
  Modelled from the spec: the path reconstructor of module \<open>breadth_first_search\<close> (section
  4.3), from a node to the target, "using the backward visited-map symmetrically".
\<close>

fun paths_to_target :: "generation list \<Rightarrow> int \<Rightarrow> int list list" where
  "paths_to_target [] v = []"
| "paths_to_target (g # gs) v =
     (case map_of g v of
        None \<Rightarrow> []
      | Some parents \<Rightarrow>
          if parents = [] then [[v]]
          else concat (map (\<lambda>u. map (\<lambda>p. v # p) (paths_to_target gs u)) parents))"

text \<open>
  Modelled from the spec: the path reconstructor of module \<open>breadth_first_search\<close> (section
  4.3), for one meeting node: "the Cartesian product of (source to m paths) and (m to
  target paths), with m written once".
\<close>

definition paths_through :: "search_state \<Rightarrow> int \<Rightarrow> int list list" where
  "paths_through st m =
     (case (generations_until (visited_forward st) m,
            generations_until (visited_backward st) m) of
        (Some gf, Some gb) \<Rightarrow>
          concat (map (\<lambda>p. map (\<lambda>q. p @ tl q) (paths_to_target gb m)) (paths_from_source gf m))
      | _ \<Rightarrow> [])"

text \<open>
  Modelled from the spec: the path reconstructor of module \<open>breadth_first_search\<close> (section
  4.3): "union over all meeting nodes, then deduplicate identical sequences".
\<close>

definition reconstruct_paths :: "search_state \<Rightarrow> int list list" where
  "reconstruct_paths st = remdups (concat (map (paths_through st) (meeting_nodes st)))"

section \<open>The search loop and the entry points\<close>

text \<open>
  Modelled from the spec: the loop of module \<open>breadth_first_search\<close> (section 4.2, steps 3
  and 4).  It runs "while neither frontier is empty and no meeting distance has been
  closed".  A round chooses a side (3a), expands it (3b, 3c) and intersects the two
  visited-maps (3d).  The first non-empty intersection closes the meeting distance, the sum
  of the two distance counters (that no shorter meeting exists is proved below, as is that
  no further round is needed), and the paths are reconstructed.  A frontier that empties
  out with no intersection ends the search with the empty path list.  That the loop
  terminates on every state is proved in its own section below.
\<close>

function bfs_loop :: "strategy \<Rightarrow> database \<Rightarrow> search_state \<Rightarrow> error + int list list" where
  "bfs_loop strat db st =
     (if frontier (visited_forward st) = [] \<or> frontier (visited_backward st) = [] then Inr []
      else
        (case choose_direction strat db st of
           Inl e \<Rightarrow> Inl e
         | Inr d \<Rightarrow>
             (case expand db d st of
                Inl e \<Rightarrow> Inl e
              | Inr st' \<Rightarrow>
                  if visited_intersection st' \<noteq> [] then Inr (reconstruct_paths st')
                  else bfs_loop strat db st')))"
  by pat_completeness auto

text \<open>
  Modelled from the spec: the contract \<open>shortestPaths(source, target)\<close> of module
  \<open>breadth_first_search\<close> (section 4.2, steps 1 and 2), for each way of choosing the side.
\<close>

definition breadth_first_search_with ::
  "strategy \<Rightarrow> int \<Rightarrow> int \<Rightarrow> database \<Rightarrow> error + int list list" where
  "breadth_first_search_with strat source target db =
     (if source = target then Inr [[source]]
      else bfs_loop strat db (initial_state source target))"

text \<open>
  Modelled from the spec: \<open>breadth_first_search(source_page_id, target_page_id, database)\<close>
  as \<open>database.py\<close> calls it, the cost-based engine.
\<close>

definition breadth_first_search :: "int \<Rightarrow> int \<Rightarrow> database \<Rightarrow> error + int list list" where
  "breadth_first_search source target db = breadth_first_search_with Cost_based source target db"

text \<open>
  \<open>Database.compute_shortest_paths\<close>.  \<open>validate_page_id\<close> is a function of \<open>helpers\<close>, which
  is not among the sources; it is taken as a parameter.  The source hands it the page ID
  and nothing else, so it is a function of the ID alone; it returns normally or raises.
\<close>

definition compute_shortest_paths ::
  "(int \<Rightarrow> error + unit) \<Rightarrow> database \<Rightarrow> int \<Rightarrow> int \<Rightarrow> error + int list list" where
  "compute_shortest_paths validate_page_id db source_page_id target_page_id =
     (case validate_page_id source_page_id of
        Inl e \<Rightarrow> Inl e
      | Inr _ \<Rightarrow>
          (case validate_page_id target_page_id of
             Inl e \<Rightarrow> Inl e
           | Inr _ \<Rightarrow> breadth_first_search source_page_id target_page_id db))"

section \<open>Title resolution\<close>

text \<open>
  \<^verbatim>\<open>SELECT * FROM pages WHERE LOWER(title) = LOWER(%s);\<close> and \<open>fetchall()\<close>: the rows of
  \<open>pages\<close> whose title is the given one up to case, in storage order.  \<open>LOWER\<close> is the
  database's function; which letters it folds depends on the encoding and the locale of the
  database (the letters A to Z always, under a UTF-8 locale the letters beyond ASCII too),
  so it is a parameter.
\<close>

definition fetch_pages_by_title ::
  "(string \<Rightarrow> string) \<Rightarrow> database \<Rightarrow> string \<Rightarrow> (int \<times> string \<times> bool) list" where
  "fetch_pages_by_title lower db sanitized_page_title =
     filter (\<lambda>(i, title, is_redirect). lower title = lower sanitized_page_title) (pages db)"

text \<open>
  \<^verbatim>\<open>SELECT target_id, title FROM redirects INNER JOIN pages ON pages.id = target_id
  WHERE source_id = %s;\<close> and \<open>fetchone()\<close>: the first row of the join, if there is one.
\<close>

definition fetch_redirect_target :: "database \<Rightarrow> int \<Rightarrow> (int \<times> string) option" where
  "fetch_redirect_target db source_id =
     (case concat
             (map (\<lambda>(s, target_id).
                     map (\<lambda>(i, title, is_redirect). (target_id, title))
                       (filter (\<lambda>(i, title, is_redirect). i = target_id) (pages db)))
                (filter (\<lambda>(s, target_id). s = source_id) (redirects db))) of
        [] \<Rightarrow> None
      | row # _ \<Rightarrow> Some row)"

text \<open>The message of the \<open>ValueError\<close> that \<open>fetch_page\<close> raises.\<close>

definition title_does_not_exist :: "string \<Rightarrow> error" where
  "title_does_not_exist page_title =
     ValueError (''Invalid page title '' @ page_title @ '' provided. Page title does not exist.'')"

text \<open>
  \<open>Database.fetch_page\<close>.  \<open>get_sanitized_page_title\<close> (which may raise) and
  \<open>get_readable_page_title\<close> are functions of \<open>helpers\<close>, which is not among the sources; they
  are parameters, as is the database's \<open>LOWER\<close>.  The sanitised title is bound to the first
  statement; a text that holds the character NUL is one the database cannot hold, and
  \<open>cursor.execute\<close> raises \<open>DataError\<close> for it.  The rows that match the title without regard
  to case are searched for a non-redirect page with exactly the title, then for any
  non-redirect page; if all are redirects, the redirect of the first row is followed, once.
\<close>

definition fetch_page ::
  "(string \<Rightarrow> error + string) \<Rightarrow> (string \<Rightarrow> string) \<Rightarrow> (string \<Rightarrow> string) \<Rightarrow> database \<Rightarrow>
   string \<Rightarrow> error + (int \<times> string \<times> bool)" where
  "fetch_page get_sanitized_page_title get_readable_page_title lower db page_title =
     (case get_sanitized_page_title page_title of
        Inl e \<Rightarrow> Inl e
      | Inr sanitized_page_title \<Rightarrow>
          if CHR 0x00 \<in> set sanitized_page_title then Inl DataError
          else
            (let results = fetch_pages_by_title lower db sanitized_page_title
             in if results = [] then Inl (title_does_not_exist page_title)
                else
                  (case find (\<lambda>(i, title, is_redirect).
                                 title = sanitized_page_title \<and> \<not> is_redirect) results of
                     Some (current_page_id, current_page_title, _) \<Rightarrow>
                       Inr (current_page_id, get_readable_page_title current_page_title, False)
                   | None \<Rightarrow>
                       (case find (\<lambda>(i, title, is_redirect). \<not> is_redirect) results of
                          Some (current_page_id, current_page_title, _) \<Rightarrow>
                            Inr (current_page_id, get_readable_page_title current_page_title,
                                 False)
                        | None \<Rightarrow>
                            (case fetch_redirect_target db (fst (hd results)) of
                               None \<Rightarrow> Inl (title_does_not_exist page_title)
                             | Some (target_id, title) \<Rightarrow>
                                 Inr (target_id, get_readable_page_title title, True))))))"

text \<open>
  Every redirect of the store points at a page that is not itself a redirect.
\<close>

definition redirects_resolved :: "database \<Rightarrow> bool" where
  "redirects_resolved db =
     (\<forall>(s, target_id) \<in> set (redirects db).
        \<forall>(i, title, is_redirect) \<in> set (pages db). i = target_id \<longrightarrow> \<not> is_redirect)"

section \<open>Recording a search, and the route\<close>

text \<open>
  The dictionary \<open>shortest_paths_route\<close> hands to \<open>insert_result\<close>, and the row of \<open>searches\<close>
  that \<open>insert_result\<close> writes (\<open>degrees_count\<close> is \<open>NULL\<close> when no path was found; the time
  stamp is the database's).  The duration is a difference of clock readings, of a type left
  open.
\<close>

record 'd search =
  search_source_id :: int
  search_target_id :: int
  search_duration :: 'd
  search_paths :: "int list list"

record 'd searches_row =
  row_source_id :: int
  row_target_id :: int
  row_duration :: 'd
  row_degrees_count :: "int option"
  row_paths_count :: nat

text \<open>
  \<open>Database.insert_result\<close>.  \<open>execute\<close> stands for \<open>connection.execute(query)\<close> followed by
  \<open>connection.commit()\<close> on the connection to the database, which may raise.
\<close>

definition insert_result :: "('d searches_row \<Rightarrow> error + unit) \<Rightarrow> 'd search \<Rightarrow> error + unit" where
  "insert_result execute search =
     (let paths_count = length (search_paths search);
          degrees_count =
            (if paths_count = 0 then None
             else Some (int (length (hd (search_paths search))) - 1))
      in execute
           \<lparr>row_source_id = search_source_id search, row_target_id = search_target_id search,
            row_duration = search_duration search, row_degrees_count = degrees_count,
            row_paths_count = paths_count\<rparr>)"

text \<open>
  The JSON body of a request (its entries \<open>source\<close> and \<open>target\<close>), the response, and what
  the route writes to the log.  The
  \<open>pages\<close> entry of the response is the empty list when no path was found and else what
  \<open>fetch_wikipedia_pages_info\<close> returned.
\<close>

record request =
  json_source :: string
  json_target :: string

datatype 'p pages_entry = Empty_list | Pages_info 'p

record 'p response =
  sourcePageTitle :: string
  targetPageTitle :: string
  isSourceRedirected :: bool
  isTargetRedirected :: bool
  response_paths :: "int list list"
  response_pages :: "'p pages_entry"

datatype log_entry = No_paths_found int int | Insert_result_failed error

definition start_page_does_not_exist :: "string \<Rightarrow> error" where
  "start_page_does_not_exist title =
     InvalidRequest (''Start page '' @ [CHR 0x22] @ title @ [CHR 0x22] @
                     '' does not exist. Please try another search.'')"

definition end_page_does_not_exist :: "string \<Rightarrow> error" where
  "end_page_does_not_exist title =
     InvalidRequest (''End page '' @ [CHR 0x22] @ title @ [CHR 0x22] @
                     '' does not exist. Please try another search.'')"

text \<open>
  The first two statements of \<open>shortest_paths_route\<close>: \<open>database.fetch_page\<close> in a \<open>try\<close> whose
  handler turns a \<open>ValueError\<close>, and no other exception, into the \<open>InvalidRequest\<close> given.
\<close>

definition fetch_page_or_invalid ::
  "(string \<Rightarrow> error + string) \<Rightarrow> (string \<Rightarrow> string) \<Rightarrow> (string \<Rightarrow> string) \<Rightarrow> database \<Rightarrow>
   string \<Rightarrow> error \<Rightarrow> error + (int \<times> string \<times> bool)" where
  "fetch_page_or_invalid get_sanitized_page_title get_readable_page_title lower db title invalid =
     (case fetch_page get_sanitized_page_title get_readable_page_title lower db title of
        Inl (ValueError _) \<Rightarrow> Inl invalid
      | Inl e \<Rightarrow> Inl e
      | Inr page \<Rightarrow> Inr page)"

text \<open>
  The last statements of \<open>shortest_paths_route\<close>: \<open>database.insert_result\<close> in a \<open>try\<close> whose
  handler catches every \<open>Exception\<close>, logs it and goes on.  The result is the log.
\<close>

definition record_search ::
  "('d searches_row \<Rightarrow> error + unit) \<Rightarrow> 'd search \<Rightarrow> log_entry list \<Rightarrow> log_entry list" where
  "record_search execute search log =
     (case insert_result execute search of
        Inl e \<Rightarrow> log @ [Insert_result_failed e]
      | Inr _ \<Rightarrow> log)"

text \<open>
  \<open>shortest_paths_route\<close> of \<open>server.py\<close>.  It returns the response together with the log
  entries written, or raises.  \<open>helpers\<close> is not among the sources: its functions
  (\<open>get_sanitized_page_title\<close>, \<open>get_readable_page_title\<close>, \<open>validate_page_id\<close>,
  \<open>fetch_wikipedia_pages_info\<close>) are parameters, as are the database's \<open>LOWER\<close>, \<open>execute\<close>
  (see \<open>insert_result\<close>) and the time the request took.  \<open>fetch_wikipedia_pages_info\<close> is handed the IDs of the pages on
  the paths, as strings, each once (the source builds a set, whose order Python leaves
  open; here the list is in one fixed order).
\<close>

definition shortest_paths_route ::
  "(string \<Rightarrow> error + string) \<Rightarrow> (string \<Rightarrow> string) \<Rightarrow> (string \<Rightarrow> string) \<Rightarrow>
   (int \<Rightarrow> error + unit) \<Rightarrow> (string list \<Rightarrow> database \<Rightarrow> error + 'p) \<Rightarrow>
   ('d searches_row \<Rightarrow> error + unit) \<Rightarrow> 'd \<Rightarrow> database \<Rightarrow> request \<Rightarrow>
   error + ('p response \<times> log_entry list)" where
  "shortest_paths_route get_sanitized_page_title get_readable_page_title lower validate_page_id
       fetch_wikipedia_pages_info execute elapsed db req =
     (case fetch_page_or_invalid get_sanitized_page_title get_readable_page_title lower db
             (json_source req) (start_page_does_not_exist (json_source req)) of
        Inl e \<Rightarrow> Inl e
      | Inr (source_page_id, source_page_title, is_source_redirected) \<Rightarrow>
          (case fetch_page_or_invalid get_sanitized_page_title get_readable_page_title lower db
                  (json_target req) (end_page_does_not_exist (json_target req)) of
             Inl e \<Rightarrow> Inl e
           | Inr (target_page_id, target_page_title, is_target_redirected) \<Rightarrow>
               (case compute_shortest_paths validate_page_id db source_page_id target_page_id of
                  Inl e \<Rightarrow> Inl e
                | Inr paths \<Rightarrow>
                    (let search = \<lparr>search_source_id = source_page_id,
                                   search_target_id = target_page_id,
                                   search_duration = elapsed, search_paths = paths\<rparr>
                     in if length paths = 0
                        then Inr (\<lparr>sourcePageTitle = source_page_title,
                                   targetPageTitle = target_page_title,
                                   isSourceRedirected = is_source_redirected,
                                   isTargetRedirected = is_target_redirected,
                                   response_paths = [], response_pages = Empty_list\<rparr>,
                                  record_search execute search
                                    [No_paths_found source_page_id target_page_id])
                        else
                          (case fetch_wikipedia_pages_info
                                  (remdups (map py_str_int (concat paths))) db of
                             Inl e \<Rightarrow> Inl e
                           | Inr info \<Rightarrow>
                               Inr (\<lparr>sourcePageTitle = source_page_title,
                                     targetPageTitle = target_page_title,
                                     isSourceRedirected = is_source_redirected,
                                     isTargetRedirected = is_target_redirected,
                                     response_paths = paths, response_pages = Pages_info info\<rparr>,
                                    record_search execute search []))))))"

section \<open>The graph of a store and its shortest paths\<close>

text \<open>
  The graph a store holds: there is an edge from \<open>u\<close> to \<open>v\<close> when a row of page \<open>u\<close> lists \<open>v\<close>
  among its outgoing links.  A page is a node of the store when it has a row.
\<close>

definition edge :: "database \<Rightarrow> int \<Rightarrow> int \<Rightarrow> bool" where
  "edge db u v = (\<exists>r \<in> set (links db). row_id r = u \<and> v \<in> set (outgoing_links r))"

definition has_row :: "database \<Rightarrow> int \<Rightarrow> bool" where
  "has_row db v = (\<exists>r \<in> set (links db). row_id r = v)"

text \<open>
  The store holds one graph: a row lists \<open>v\<close> as outgoing exactly when a row of \<open>v\<close> lists
  the page as incoming.
\<close>

definition store_consistent :: "database \<Rightarrow> bool" where
  "store_consistent db =
     (\<forall>r \<in> set (links db).
        (\<forall>v \<in> set (outgoing_links r).
           \<exists>r' \<in> set (links db). row_id r' = v \<and> row_id r \<in> set (incoming_links r')) \<and>
        (\<forall>u \<in> set (incoming_links r).
           \<exists>r' \<in> set (links db). row_id r' = u \<and> row_id r \<in> set (outgoing_links r')))"

text \<open>
  What the claims about the search speak of.  A walk of a graph is a non-empty list of
  nodes in which every node has an edge to the next one.
\<close>

fun walk :: "(int \<Rightarrow> int \<Rightarrow> bool) \<Rightarrow> int list \<Rightarrow> bool" where
  "walk E [] = False"
| "walk E [v] = True"
| "walk E (u # v # p) = (E u v \<and> walk E (v # p))"

text \<open>
  A path from \<open>s\<close> to \<open>t\<close> in the store's graph, and a shortest one: no path from \<open>s\<close> to \<open>t\<close>
  has fewer nodes.
\<close>

definition is_path :: "database \<Rightarrow> int \<Rightarrow> int \<Rightarrow> int list \<Rightarrow> bool" where
  "is_path db s t p \<longleftrightarrow> walk (edge db) p \<and> hd p = s \<and> last p = t"

definition shortest_path :: "database \<Rightarrow> int \<Rightarrow> int \<Rightarrow> int list \<Rightarrow> bool" where
  "shortest_path db s t p \<longleftrightarrow> is_path db s t p \<and> (\<forall>q. is_path db s t q \<longrightarrow> length p \<le> length q)"

section \<open>Notions used in the proofs\<close>

text \<open>
  For the proofs: a visited-map is layered (from the start node \<open>s\<close>, along the edges \<open>E\<close>)
  when its last generation is the start node alone and every other generation holds, once
  each, exactly the nodes that an edge from the generation before reaches and that no
  earlier generation holds, each with exactly its predecessors in the generation before as
  parents.
\<close>

fun layered :: "(int \<Rightarrow> int \<Rightarrow> bool) \<Rightarrow> int \<Rightarrow> generation list \<Rightarrow> bool" where
  "layered E s [] = False"
| "layered E s [g] = (g = [(s, [])])"
| "layered E s (g # g' # gs) =
     (layered E s (g' # gs) \<and> distinct (map fst g) \<and>
      (\<forall>v. v \<in> fst ` set g \<longleftrightarrow> v \<notin> set (visited_nodes (g' # gs)) \<and> (\<exists>u \<in> fst ` set g'. E u v)) \<and>
      (\<forall>v ps. map_of g v = Some ps \<longrightarrow> ps \<noteq> [] \<and> set ps = {u \<in> fst ` set g'. E u v}))"

text \<open>
  For the proofs: the invariant of the loop.  Both visited-maps are layered, the backward
  one along the reversed edges; the counters are the numbers of expansions; every visited
  page has a row.
\<close>

definition search_inv :: "database \<Rightarrow> int \<Rightarrow> int \<Rightarrow> search_state \<Rightarrow> bool" where
  "search_inv db s t st \<longleftrightarrow>
     layered (edge db) s (visited_forward st) \<and>
     layered (\<lambda>u v. edge db v u) t (visited_backward st) \<and>
     forward_distance st = length (visited_forward st) - 1 \<and>
     backward_distance st = length (visited_backward st) - 1 \<and>
     (\<forall>v \<in> set (visited_nodes (visited_forward st)) \<union> set (visited_nodes (visited_backward st)).
        has_row db v)"

text \<open>
  For the proofs: the parents a generation records for a node, as a set, and the two
  properties every generation under construction has (each node once, no empty parent
  list).
\<close>

definition parent_set :: "generation \<Rightarrow> int \<Rightarrow> int set" where
  "parent_set next v = (case map_of next v of None \<Rightarrow> {} | Some q \<Rightarrow> set q)"

definition good_generation :: "generation \<Rightarrow> bool" where
  "good_generation next \<longleftrightarrow> distinct (map fst next) \<and> (\<forall>v q. map_of next v = Some q \<longrightarrow> q \<noteq> [])"

text \<open>For the proofs: the neighbours the fetched pairs list for a node.\<close>

definition row_neighbors :: "(int \<times> int list) list \<Rightarrow> int \<Rightarrow> int set" where
  "row_neighbors rows n = {v. \<exists>nbrs. (n, nbrs) \<in> set rows \<and> v \<in> set nbrs}"

text \<open>
  For the termination of the search loop: the page IDs that occur in a neighbour list of
  the store (finitely many), and the measure that every round of the loop decreases.  A
  round either visits a page of the store that the expanded side had not visited, or
  leaves an empty frontier, which ends the loop.
\<close>

definition store_nodes :: "database \<Rightarrow> int set" where
  "store_nodes db = (\<Union>r \<in> set (links db). set (outgoing_links r) \<union> set (incoming_links r))"

definition search_measure :: "database \<Rightarrow> search_state \<Rightarrow> nat" where
  "search_measure db st =
     2 * (card (store_nodes db - set (visited_nodes (visited_forward st))) +
          card (store_nodes db - set (visited_nodes (visited_backward st)))) +
     (if frontier (visited_forward st) = [] \<or> frontier (visited_backward st) = [] then 0 else 1)"

section \<open>Example stores and parameters\<close>

text \<open>
  A store used in the examples: pages 1, 2 and 3 exist; page 2 links to page 3; page 1
  has no link in either direction and therefore no row in \<open>links\<close>.
\<close>

definition example_store :: database where
  "example_store =
     \<lparr>pages = [(1, ''A'', False), (2, ''B'', False), (3, ''C'', False)],
      redirects = [],
      links =
        [\<lparr>row_id = 2, outgoing_links = [3], incoming_links = [],
          outgoing_links_count = 1, incoming_links_count = 0\<rparr>,
         \<lparr>row_id = 3, outgoing_links = [], incoming_links = [2],
          outgoing_links_count = 0, incoming_links_count = 1\<rparr>]\<rparr>"

text \<open>
  The stores of the scenarios of section 8 of the specification, with A, B, C, D as the
  pages 1, 2, 3, 4: the diamond (A to B to D, A to C to D) and the disconnected graph (A to
  B, C to D).
\<close>

definition diamond_store :: database where
  "diamond_store =
     \<lparr>pages = [(1, ''A'', False), (2, ''B'', False), (3, ''C'', False), (4, ''D'', False)],
      redirects = [],
      links =
        [\<lparr>row_id = 1, outgoing_links = [2, 3], incoming_links = [],
          outgoing_links_count = 2, incoming_links_count = 0\<rparr>,
         \<lparr>row_id = 2, outgoing_links = [4], incoming_links = [1],
          outgoing_links_count = 1, incoming_links_count = 1\<rparr>,
         \<lparr>row_id = 3, outgoing_links = [4], incoming_links = [1],
          outgoing_links_count = 1, incoming_links_count = 1\<rparr>,
         \<lparr>row_id = 4, outgoing_links = [], incoming_links = [2, 3],
          outgoing_links_count = 0, incoming_links_count = 2\<rparr>]\<rparr>"

definition disconnected_store :: database where
  "disconnected_store =
     \<lparr>pages = [(1, ''A'', False), (2, ''B'', False), (3, ''C'', False), (4, ''D'', False)],
      redirects = [],
      links =
        [\<lparr>row_id = 1, outgoing_links = [2], incoming_links = [],
          outgoing_links_count = 1, incoming_links_count = 0\<rparr>,
         \<lparr>row_id = 2, outgoing_links = [], incoming_links = [1],
          outgoing_links_count = 0, incoming_links_count = 1\<rparr>,
         \<lparr>row_id = 3, outgoing_links = [4], incoming_links = [],
          outgoing_links_count = 1, incoming_links_count = 0\<rparr>,
         \<lparr>row_id = 4, outgoing_links = [], incoming_links = [3],
          outgoing_links_count = 0, incoming_links_count = 1\<rparr>]\<rparr>"

text \<open>
  An instance of the parameter \<open>validate_page_id\<close> for the examples: it accepts the
  positive page IDs.
\<close>

definition accept_positive_id :: "int \<Rightarrow> error + unit" where
  "accept_positive_id page_id =
     (if 0 < page_id then Inr () else Inl (ValueError ''Invalid page ID provided.''))"

text \<open>
  Instances of the parameters for the examples.  The sanitiser rejects the empty title and
  writes underscores for blanks; the readable title has the blanks back.  \<open>LOWER\<close> folds the
  letters A to Z.  Page details are the list of IDs asked for.  One connection works, the
  other has lost the database.
\<close>

definition ascii_lower :: "string \<Rightarrow> string" where
  "ascii_lower s =
     map (\<lambda>c. if 65 \<le> (of_char c :: nat) \<and> (of_char c :: nat) \<le> 90
              then char_of ((of_char c :: nat) + 32) else c) s"

definition underscore_title :: "string \<Rightarrow> error + string" where
  "underscore_title title =
     (if title = [] then Inl (ValueError ''Invalid page title provided.'')
      else Inr (map (\<lambda>c. if c = CHR '' '' then CHR ''_'' else c) title))"

definition blank_title :: "string \<Rightarrow> string" where
  "blank_title title = map (\<lambda>c. if c = CHR ''_'' then CHR '' '' else c) title"

definition ids_as_info :: "string list \<Rightarrow> database \<Rightarrow> error + string list" where
  "ids_as_info page_ids db = Inr page_ids"

definition working_connection :: "nat searches_row \<Rightarrow> error + unit" where
  "working_connection row = Inr ()"

definition lost_connection :: "nat searches_row \<Rightarrow> error + unit" where
  "lost_connection row = Inl (OperationalError ''server closed the connection'')"

text \<open>
  A store in which every redirect points at a page that is no redirect, and one in which
  page 1 redirects to page 2, itself a redirect to page 3.
\<close>

definition redirect_store :: database where
  "redirect_store =
     \<lparr>pages = [(1, ''Sun'', False), (2, ''Sol'', True), (3, ''sun'', True)],
      redirects = [(2, 1), (3, 1)], links = []\<rparr>"

definition chained_store :: database where
  "chained_store =
     \<lparr>pages = [(1, ''Old'', True), (2, ''Newer'', True), (3, ''Newest'', False)],
      redirects = [(1, 2), (2, 3)], links = []\<rparr>"

section \<open>The SQL text: what the database reads back\<close>

lemma of_char_digit: "(d::nat) < 10 \<Longrightarrow> (of_char (char_of (48 + d)) :: nat) = 48 + d"
  by simp

lemma is_digit_char_of: "(d::nat) < 10 \<Longrightarrow> is_digit (char_of (48 + d))"
  by (simp add: is_digit_def)

lemma digits_of_all_digits: "list_all is_digit (digits_of n)"
proof (induction n rule: digits_of.induct)
  case (1 n)
  show ?case
  proof (cases "n < 10")
    case True
    then show ?thesis by (subst digits_of.simps) (simp add: is_digit_char_of)
  next
    case False
    have "n mod 10 < 10" by simp
    then have "is_digit (char_of (48 + n mod 10))" by (rule is_digit_char_of)
    with False 1 show ?thesis by (subst digits_of.simps) simp
  qed
qed

lemma digits_of_nonempty: "digits_of n \<noteq> []"
  by (subst digits_of.simps) simp

lemma nat_of_digits_snoc: "nat_of_digits (s @ [c]) = 10 * nat_of_digits s + (of_char c - 48)"
  by (simp add: nat_of_digits_def)

lemma nat_of_digits_digits_of: "nat_of_digits (digits_of n) = n"
proof (induction n rule: digits_of.induct)
  case (1 n)
  show ?case
  proof (cases "n < 10")
    case True
    then show ?thesis by (subst digits_of.simps) (simp add: nat_of_digits_def)
  next
    case False
    have m: "n mod 10 < 10" by simp
    have "nat_of_digits (digits_of (n div 10) @ [char_of (48 + n mod 10)]) = 10 * (n div 10) + n mod 10"
      using 1 False by (simp only: nat_of_digits_snoc of_char_digit [OF m]) simp
    then show ?thesis using False by (subst digits_of.simps) simp
  qed
qed

lemma is_digit_not_special: "is_digit c \<Longrightarrow> c \<noteq> CHR '','' \<and> c \<noteq> CHR '' '' \<and> c \<noteq> CHR ''-'' \<and> c \<noteq> CHR '')''"
  by (auto simp: is_digit_def)

lemma digits_of_no_special:
  "CHR '','' \<notin> set (digits_of n)" "CHR '' '' \<notin> set (digits_of n)" "CHR '')'' \<notin> set (digits_of n)"
  using digits_of_all_digits [of n] is_digit_not_special by (auto simp: list_all_iff)

lemma py_str_int_no_special:
  "CHR '','' \<notin> set (py_str_int i)" "CHR '' '' \<notin> set (py_str_int i)" "CHR '')'' \<notin> set (py_str_int i)"
  by (simp_all add: py_str_int_def digits_of_no_special)

lemma py_str_int_nonempty: "py_str_int i \<noteq> []"
  by (simp add: py_str_int_def digits_of_nonempty)

lemma sql_int_literal_digits: "sql_int_literal (digits_of n) = Some (int n)"
proof -
  obtain c cs where d: "digits_of n = c # cs"
    using digits_of_nonempty [of n] by (cases "digits_of n") auto
  have all: "list_all is_digit (c # cs)" using digits_of_all_digits [of n] d by simp
  then have "c \<noteq> CHR '' ''" "c \<noteq> CHR ''-''" using is_digit_not_special [of c] by auto
  then have "sql_int_literal (c # cs) = Some (int (nat_of_digits (c # cs)))"
    using all by (simp add: sql_int_literal_def)
  then show ?thesis using nat_of_digits_digits_of [of n] d by simp
qed

lemma sql_int_literal_py_str_int: "sql_int_literal (py_str_int i) = Some i"
proof (cases "i < 0")
  case True
  have "sql_int_literal (CHR ''-'' # digits_of (nat (- i))) = Some (- int (nat_of_digits (digits_of (nat (- i)))))"
    using digits_of_nonempty digits_of_all_digits by (simp add: sql_int_literal_def)
  then show ?thesis using True by (simp add: py_str_int_def nat_of_digits_digits_of)
next
  case False
  then show ?thesis by (simp add: py_str_int_def sql_int_literal_digits)
qed

lemma sql_int_literal_space: "sql_int_literal (CHR '' '' # s) = sql_int_literal s"
  by (simp add: sql_int_literal_def)

lemma split_commas_nonempty: "split_commas s \<noteq> []"
  by (induction s) (auto split: list.splits)

lemma split_commas_no_comma: "CHR '','' \<notin> set w \<Longrightarrow> split_commas w = [w]"
  by (induction w) auto

lemma split_commas_append:
  "CHR '','' \<notin> set w \<Longrightarrow> split_commas (w @ CHR '','' # rest) = w # split_commas rest"
  by (induction w) auto

lemma split_commas_join:
  "\<forall>w \<in> set (v # ws). CHR '','' \<notin> set w \<Longrightarrow>
   split_commas (join_comma (v # ws)) = v # map (\<lambda>w. CHR '' '' # w) ws"
proof (induction ws arbitrary: v)
  case Nil
  then show ?case by (simp add: split_commas_no_comma)
next
  case (Cons u us)
  have "split_commas (v @ CHR '','' # (CHR '' '' # join_comma (u # us))) = v # split_commas (CHR '' '' # join_comma (u # us))"
    using Cons.prems by (intro split_commas_append) simp
  moreover have "split_commas (join_comma (u # us)) = u # map (\<lambda>w. CHR '' '' # w) us"
    using Cons.prems by (intro Cons.IH) simp
  ultimately show ?case by simp
qed

lemma py_replace_no_comma:
  "CHR '','' \<notin> set w \<Longrightarrow> py_replace '',)'' '')'' (w @ rest) = w @ py_replace '',)'' '')'' rest"
  by (induction w) auto

lemma py_replace_comma_space:
  "py_replace '',)'' '')'' (CHR '','' # CHR '' '' # rest) = CHR '','' # CHR '' '' # py_replace '',)'' '')'' rest"
  by simp

lemma py_replace_join:
  "\<forall>w \<in> set ws. CHR '','' \<notin> set w \<Longrightarrow>
   py_replace '',)'' '')'' (join_comma ws @ rest) = join_comma ws @ py_replace '',)'' '')'' rest"
proof (induction ws rule: join_comma.induct)
  case 1
  then show ?case by simp
next
  case (2 w)
  then show ?case by (simp add: py_replace_no_comma)
next
  case (3 w v ws)
  have "py_replace '',)'' '')'' (w @ (CHR '','' # CHR '' '' # (join_comma (v # ws) @ rest)))
        = w @ py_replace '',)'' '')'' (CHR '','' # CHR '' '' # (join_comma (v # ws) @ rest))"
    using 3 by (intro py_replace_no_comma) simp
  then show ?case using 3 by simp
qed

lemma page_ids_sql_empty: "page_ids_sql [] = ''()''"
  by (simp add: page_ids_sql_def py_str_tuple_def)

lemma page_ids_sql_text:
  "xs \<noteq> [] \<Longrightarrow> page_ids_sql xs = ''('' @ join_comma (map py_str_int xs) @ '')''"
proof -
  assume "xs \<noteq> []"
  have nc: "\<forall>w \<in> set (map py_str_int xs). CHR '','' \<notin> set w"
    by (simp add: py_str_int_no_special)
  have "py_replace '',)'' '')'' (join_comma (map py_str_int xs) @ rest) = join_comma (map py_str_int xs) @ py_replace '',)'' '')'' rest" for rest
    using nc by (rule py_replace_join)
  then show ?thesis
    by (simp add: page_ids_sql_def py_str_tuple_def)
qed

lemma those_map_Some: "those (map Some xs) = Some xs"
  by (induction xs) auto

lemma sql_in_list_page_ids_sql:
  assumes "xs \<noteq> []"
  shows "sql_in_list (page_ids_sql xs) = Some xs"
proof -
  obtain y ys where xs: "xs = y # ys" using assms by (cases xs) auto
  have nc: "\<forall>w \<in> set (py_str_int y # map py_str_int ys). CHR '','' \<notin> set w"
    by (simp add: py_str_int_no_special)
  have sp: "split_commas (join_comma (py_str_int y # map py_str_int ys)) = py_str_int y # map (\<lambda>w. CHR '' '' # w) (map py_str_int ys)"
    using nc by (rule split_commas_join)
  have "map sql_int_literal (map (\<lambda>w. CHR '' '' # w) (map py_str_int ys)) = map Some ys"
    by (induction ys) (simp_all add: sql_int_literal_py_str_int sql_int_literal_space)
  then have "map sql_int_literal (py_str_int y # map (\<lambda>w. CHR '' '' # w) (map py_str_int ys)) = map Some (y # ys)"
    by (simp add: sql_int_literal_py_str_int)
  then have "map sql_int_literal (split_commas (join_comma (map py_str_int xs))) = map Some xs"
    using sp xs by simp
  then have "those (map sql_int_literal (split_commas (join_comma (map py_str_int xs)))) = Some xs"
    by (simp only: those_map_Some)
  then show ?thesis
    using assms by (simp add: page_ids_sql_text sql_in_list_def)
qed

lemma sql_in_list_empty: "sql_in_list (page_ids_sql []) = None"
  by (simp add: page_ids_sql_empty sql_in_list_def sql_int_literal_def)

section \<open>What the two helpers return\<close>

lemma fetch_links_helper_rows:
  "page_ids \<noteq> [] \<Longrightarrow>
   fetch_links_helper db page_ids col =
     Inr (map (\<lambda>r. (row_id r, links_of col r)) (filter (\<lambda>r. row_id r \<in> set page_ids) (links db)))"
  by (simp add: fetch_links_helper_def sql_in_list_page_ids_sql)

lemma fetch_links_helper_empty: "fetch_links_helper db [] col = Inl SqlSyntaxError"
  by (simp add: fetch_links_helper_def sql_in_list_empty)

lemma fetch_links_count_helper_sum:
  "page_ids \<noteq> [] \<Longrightarrow>
   fetch_links_count_helper db page_ids col =
     (let counts = map (count_of col) (filter (\<lambda>r. row_id r \<in> set page_ids) (links db))
      in Inr (if counts = [] then None else Some (sum_list counts)))"
  by (simp add: fetch_links_count_helper_def sql_in_list_page_ids_sql)

lemma fetch_links_count_helper_empty: "fetch_links_count_helper db [] col = Inl SqlSyntaxError"
  by (simp add: fetch_links_count_helper_def sql_in_list_empty)

lemma fetch_links_count_helper_some:
  assumes "page_ids \<noteq> []" and "r \<in> set (links db)" and "row_id r \<in> set page_ids"
  shows "fetch_links_count_helper db page_ids col =
           Inr (Some (sum_list (map (count_of col) (filter (\<lambda>r. row_id r \<in> set page_ids) (links db)))))"
proof -
  have "r \<in> set (filter (\<lambda>r. row_id r \<in> set page_ids) (links db))"
    using assms by simp
  then have "filter (\<lambda>r. row_id r \<in> set page_ids) (links db) \<noteq> []"
    by (metis empty_iff empty_set)
  then show ?thesis
    using assms(1) by (simp add: fetch_links_count_helper_sum)
qed

section \<open>One expansion: the generation it builds\<close>

lemma visited_nodes_Cons: "set (visited_nodes (g # gs)) = fst ` set g \<union> set (visited_nodes gs)"
  by (simp add: visited_nodes_def)

lemma visited_nodes_Nil: "visited_nodes [] = []"
  by (simp add: visited_nodes_def)

lemma record_parent_good:
  assumes "good_generation acc"
  shows "good_generation (record_parent acc v n)"
proof (cases "map_of acc v")
  case None
  then have "v \<notin> fst ` set acc" by (simp add: map_of_eq_None_iff)
  then show ?thesis
    using assms None
    by (auto simp: good_generation_def record_parent_def map_add_def split: option.splits)
next
  case (Some q)
  then show ?thesis
    using assms
    by (auto simp: good_generation_def record_parent_def update_conv' distinct_update
        List.insert_def split: if_splits)
qed

lemma record_parent_keys: "fst ` set (record_parent acc v n) = insert v (fst ` set acc)"
proof (cases "map_of acc v")
  case None
  then show ?thesis by (auto simp: record_parent_def)
next
  case (Some q)
  then have "v \<in> fst ` set acc" by (metis map_of_eq_None_iff option.distinct(1))
  then show ?thesis using Some by (auto simp: record_parent_def dom_update)
qed

lemma record_parent_parent_set:
  "parent_set (record_parent acc v n) v' =
     (if v' = v then insert n (parent_set acc v) else parent_set acc v')"
proof (cases "map_of acc v")
  case None
  then show ?thesis
    by (auto simp: parent_set_def record_parent_def map_add_def split: option.splits)
next
  case (Some q)
  then show ?thesis
    by (auto simp: parent_set_def record_parent_def update_conv' split: option.splits)
qed

lemma visit_neighbors_fold:
  assumes "good_generation acc"
  shows "good_generation (fold (visit_neighbor visited n) nbrs acc) \<and>
         fst ` set (fold (visit_neighbor visited n) nbrs acc) =
           fst ` set acc \<union> (set nbrs - set (visited_nodes visited)) \<and>
         (\<forall>v. parent_set (fold (visit_neighbor visited n) nbrs acc) v =
           parent_set acc v \<union> (if v \<in> set nbrs - set (visited_nodes visited) then {n} else {}))"
  using assms
proof (induction nbrs arbitrary: acc)
  case Nil
  then show ?case by simp
next
  case (Cons a nbrs)
  let ?next' = "visit_neighbor visited n a acc"
  have g: "good_generation ?next'"
    using Cons.prems by (simp add: visit_neighbor_def record_parent_good)
  have k: "fst ` set ?next' = fst ` set acc \<union> ({a} - set (visited_nodes visited))"
    by (auto simp: visit_neighbor_def record_parent_keys)
  have p: "parent_set ?next' v =
      parent_set acc v \<union> (if v \<in> {a} - set (visited_nodes visited) then {n} else {})" for v
    by (auto simp: visit_neighbor_def record_parent_parent_set)
  show ?case
    using Cons.IH [OF g] k p by (simp only: fold_simps) auto
qed

lemma expand_rows_fold:
  assumes "good_generation acc"
  shows "good_generation (fold (\<lambda>(node, neighbors) next. fold (visit_neighbor visited node) neighbors next) rows acc) \<and>
         fst ` set (fold (\<lambda>(node, neighbors) next. fold (visit_neighbor visited node) neighbors next) rows acc) =
           fst ` set acc \<union> ((\<Union>n. row_neighbors rows n) - set (visited_nodes visited)) \<and>
         (\<forall>v. parent_set (fold (\<lambda>(node, neighbors) next. fold (visit_neighbor visited node) neighbors next) rows acc) v =
           parent_set acc v \<union> {n. v \<in> row_neighbors rows n \<and> v \<notin> set (visited_nodes visited)})"
  using assms
proof (induction rows arbitrary: acc)
  case Nil
  then show ?case by (simp add: row_neighbors_def)
next
  case (Cons row rows)
  obtain n nbrs where row: "row = (n, nbrs)" by (cases row)
  let ?next' = "fold (visit_neighbor visited n) nbrs acc"
  note step = visit_neighbors_fold [OF Cons.prems, of visited n nbrs]
  have g: "good_generation ?next'" using step by blast
  have k: "fst ` set ?next' = fst ` set acc \<union> (set nbrs - set (visited_nodes visited))"
    using step by blast
  have p: "parent_set ?next' v =
      parent_set acc v \<union> (if v \<in> set nbrs - set (visited_nodes visited) then {n} else {})" for v
    using step by blast
  have rn: "row_neighbors (row # rows) m = (if m = n then set nbrs else {}) \<union> row_neighbors rows m" for m
    using row by (auto simp: row_neighbors_def)
  note IH = Cons.IH [OF g]
  have 1: "good_generation (fold (\<lambda>(node, neighbors) next. fold (visit_neighbor visited node) neighbors next) (row # rows) acc)"
    using IH row by simp
  have 2: "fst ` set (fold (\<lambda>(node, neighbors) next. fold (visit_neighbor visited node) neighbors next) (row # rows) acc) =
           fst ` set acc \<union> ((\<Union>n. row_neighbors (row # rows) n) - set (visited_nodes visited))"
  proof -
    have "fst ` set (fold (\<lambda>(node, neighbors) next. fold (visit_neighbor visited node) neighbors next) (row # rows) acc) =
       fst ` set ?next' \<union> ((\<Union>n. row_neighbors rows n) - set (visited_nodes visited))"
      using IH row by simp
    also have "\<dots> = fst ` set acc \<union> ((\<Union>n. row_neighbors (row # rows) n) - set (visited_nodes visited))"
      unfolding k rn by (auto split: if_splits)
    finally show ?thesis .
  qed
  have 3: "parent_set (fold (\<lambda>(node, neighbors) next. fold (visit_neighbor visited node) neighbors next) (row # rows) acc) v =
           parent_set acc v \<union> {n. v \<in> row_neighbors (row # rows) n \<and> v \<notin> set (visited_nodes visited)}" for v
  proof -
    have "parent_set (fold (\<lambda>(node, neighbors) next. fold (visit_neighbor visited node) neighbors next) (row # rows) acc) v =
       parent_set ?next' v \<union> {n. v \<in> row_neighbors rows n \<and> v \<notin> set (visited_nodes visited)}"
      using IH row by simp
    also have "\<dots> = parent_set acc v \<union> {n. v \<in> row_neighbors (row # rows) n \<and> v \<notin> set (visited_nodes visited)}"
      unfolding p rn by (auto split: if_splits)
    finally show ?thesis .
  qed
  show ?case using 1 2 3 by blast
qed

lemma expand_frontier_props:
  "distinct (map fst (expand_frontier visited rows))"
  "fst ` set (expand_frontier visited rows) = (\<Union>n. row_neighbors rows n) - set (visited_nodes visited)"
  "map_of (expand_frontier visited rows) v = Some ps \<Longrightarrow>
     ps \<noteq> [] \<and> set ps = {n. v \<in> row_neighbors rows n}"
proof -
  have g0: "good_generation []" by (simp add: good_generation_def)
  note e = expand_rows_fold [OF g0, of visited rows, folded expand_frontier_def]
  show "distinct (map fst (expand_frontier visited rows))"
    using e by (simp add: good_generation_def)
  show k: "fst ` set (expand_frontier visited rows) = (\<Union>n. row_neighbors rows n) - set (visited_nodes visited)"
    using e by simp
  assume m: "map_of (expand_frontier visited rows) v = Some ps"
  then have "v \<in> fst ` set (expand_frontier visited rows)"
    by (metis map_of_eq_None_iff option.distinct(1))
  then have nv: "v \<notin> set (visited_nodes visited)" using k by blast
  have "parent_set (expand_frontier visited rows) v = {n. v \<in> row_neighbors rows n \<and> v \<notin> set (visited_nodes visited)}"
    using e by (simp add: parent_set_def)
  then have "set ps = {n. v \<in> row_neighbors rows n}" using m nv by (simp add: parent_set_def)
  moreover have "ps \<noteq> []" using e m by (auto simp: good_generation_def)
  ultimately show "ps \<noteq> [] \<and> set ps = {n. v \<in> row_neighbors rows n}" by simp
qed

lemma finite_store_nodes: "finite (store_nodes db)"
  by (simp add: store_nodes_def)

lemma row_neighbors_fetched:
  "row_neighbors (map (\<lambda>r. (row_id r, links_of col r)) (filter (\<lambda>r. row_id r \<in> set fr) (links db))) n =
     {v. n \<in> set fr \<and> (\<exists>r \<in> set (links db). row_id r = n \<and> v \<in> set (links_of col r))}"
  by (auto simp: row_neighbors_def)

lemma row_neighbors_in_store:
  "row_neighbors (map (\<lambda>r. (row_id r, links_of col r)) (filter (\<lambda>r. row_id r \<in> set fr) (links db))) n
     \<subseteq> store_nodes db"
proof (cases col)
  case Outgoing_links
  show ?thesis unfolding row_neighbors_fetched Outgoing_links
    by (auto simp: store_nodes_def)
next
  case Incoming_links
  show ?thesis unfolding row_neighbors_fetched Incoming_links
    by (auto simp: store_nodes_def)
qed

lemma frontier_Cons: "frontier (g # gs) = map fst g"
  by (simp add: frontier_def)

lemma unvisited_step:
  assumes "K \<subseteq> N - V" and "finite N"
  shows "card (N - (K \<union> V)) \<le> card (N - V)" and "K \<noteq> {} \<Longrightarrow> card (N - (K \<union> V)) < card (N - V)"
proof -
  have fin: "finite (N - V)" using assms(2) by simp
  have sub: "N - (K \<union> V) \<subseteq> N - V" by blast
  show "card (N - (K \<union> V)) \<le> card (N - V)" using card_mono [OF fin sub] .
  assume "K \<noteq> {}"
  then have "N - (K \<union> V) \<subset> N - V" using assms(1) by blast
  then show "card (N - (K \<union> V)) < card (N - V)" using psubset_card_mono [OF fin] by blast
qed

lemma expand_generation_measure:
  assumes g: "g = expand_frontier gens (map (\<lambda>r. (row_id r, links_of col r)) (filter (\<lambda>r. row_id r \<in> set fr) (links db)))"
  shows "card (store_nodes db - set (visited_nodes (g # gens))) \<le> card (store_nodes db - set (visited_nodes gens))"
    and "g \<noteq> [] \<Longrightarrow> card (store_nodes db - set (visited_nodes (g # gens))) < card (store_nodes db - set (visited_nodes gens))"
proof -
  have K: "fst ` set g \<subseteq> store_nodes db - set (visited_nodes gens)"
    unfolding g expand_frontier_props(2) using row_neighbors_in_store [of col fr db] by blast
  have v: "set (visited_nodes (g # gens)) = fst ` set g \<union> set (visited_nodes gens)"
    by (simp add: visited_nodes_Cons)
  show "card (store_nodes db - set (visited_nodes (g # gens))) \<le> card (store_nodes db - set (visited_nodes gens))"
    unfolding v using unvisited_step(1) [OF K finite_store_nodes] .
  assume "g \<noteq> []"
  then have "fst ` set g \<noteq> {}" by simp
  then show "card (store_nodes db - set (visited_nodes (g # gens))) < card (store_nodes db - set (visited_nodes gens))"
    unfolding v using unvisited_step(2) [OF K finite_store_nodes] by blast
qed

lemma expand_forward:
  assumes "frontier (visited_forward st) \<noteq> []"
  shows "expand db Forward st =
     Inr (st\<lparr>visited_forward :=
               expand_frontier (visited_forward st)
                 (map (\<lambda>r. (row_id r, links_of Outgoing_links r))
                    (filter (\<lambda>r. row_id r \<in> set (frontier (visited_forward st))) (links db)))
               # visited_forward st,
             forward_distance := forward_distance st + 1\<rparr>)"
  using assms by (simp add: expand_def fetch_outgoing_links_def fetch_links_helper_rows)

lemma expand_backward:
  assumes "frontier (visited_backward st) \<noteq> []"
  shows "expand db Backward st =
     Inr (st\<lparr>visited_backward :=
               expand_frontier (visited_backward st)
                 (map (\<lambda>r. (row_id r, links_of Incoming_links r))
                    (filter (\<lambda>r. row_id r \<in> set (frontier (visited_backward st))) (links db)))
               # visited_backward st,
             backward_distance := backward_distance st + 1\<rparr>)"
  using assms by (simp add: expand_def fetch_incoming_links_def fetch_links_helper_rows)

lemma search_measure_decreases:
  assumes ff: "frontier (visited_forward st) \<noteq> []" and fb: "frontier (visited_backward st) \<noteq> []"
    and ex: "expand db d st = Inr st'"
  shows "search_measure db st' < search_measure db st"
proof (cases d)
  case Forward
  define g where "g = expand_frontier (visited_forward st)
                 (map (\<lambda>r. (row_id r, links_of Outgoing_links r))
                    (filter (\<lambda>r. row_id r \<in> set (frontier (visited_forward st))) (links db)))"
  have st': "st' = st\<lparr>visited_forward := g # visited_forward st, forward_distance := forward_distance st + 1\<rparr>"
    using ex Forward expand_forward [OF ff, of db] unfolding g_def by simp
  note m = expand_generation_measure [OF g_def]
  show ?thesis
  proof (cases "g = []")
    case True
    then show ?thesis using m(1) ff fb st' by (simp add: search_measure_def frontier_Cons)
  next
    case False
    then show ?thesis using m(2) ff fb st' by (simp add: search_measure_def frontier_Cons)
  qed
next
  case Backward
  define g where "g = expand_frontier (visited_backward st)
                 (map (\<lambda>r. (row_id r, links_of Incoming_links r))
                    (filter (\<lambda>r. row_id r \<in> set (frontier (visited_backward st))) (links db)))"
  have st': "st' = st\<lparr>visited_backward := g # visited_backward st, backward_distance := backward_distance st + 1\<rparr>"
    using ex Backward expand_backward [OF fb, of db] unfolding g_def by simp
  note m = expand_generation_measure [OF g_def]
  show ?thesis
  proof (cases "g = []")
    case True
    then show ?thesis using m(1) ff fb st' by (simp add: search_measure_def frontier_Cons)
  next
    case False
    then show ?thesis using m(2) ff fb st' by (simp add: search_measure_def frontier_Cons)
  qed
qed

section \<open>The search loop terminates\<close>

termination bfs_loop
proof (relation "measure (\<lambda>(strat, db, st). search_measure db st)")
  show "wf (measure (\<lambda>(strat, db, st). search_measure db st))" by simp
next
  fix strat :: strategy and db :: database and st :: search_state and d st'
  assume "\<not> (frontier (visited_forward st) = [] \<or> frontier (visited_backward st) = [])"
    and "expand db d st = Inr st'"
  then show "((strat, db, st'), (strat, db, st)) \<in> measure (\<lambda>(strat, db, st). search_measure db st)"
    using search_measure_decreases [of st db d st'] by simp
qed

declare bfs_loop.simps [simp del]

section \<open>Paths of the store, and the correctness of the search\<close>

subsection \<open>Walks\<close>

lemma walk_nonempty: "walk E p \<Longrightarrow> p \<noteq> []"
  by (cases p) auto

lemma walk_snoc: "walk E (p @ [v]) \<longleftrightarrow> p = [] \<or> (walk E p \<and> E (last p) v)"
  by (induction E p rule: walk.induct) auto

lemma walk_append:
  "walk E p \<Longrightarrow> walk E q \<Longrightarrow> last p = hd q \<Longrightarrow> walk E (p @ tl q)"
proof (induction E p rule: walk.induct)
  case (1 E)
  then show ?case by simp
next
  case (2 E v)
  then show ?case by (cases q) auto
next
  case (3 E u v p)
  then show ?case by auto
qed

lemma walk_take: "walk E p \<Longrightarrow> 0 < n \<Longrightarrow> walk E (take n p)"
proof (induction E p arbitrary: n rule: walk.induct)
  case (1 E)
  then show ?case by simp
next
  case (2 E v)
  then show ?case by (cases n) auto
next
  case (3 E u v p)
  then obtain m where n: "n = Suc m" by (cases n) auto
  show ?case
  proof (cases m)
    case 0
    then show ?thesis using n by simp
  next
    case (Suc k)
    have "walk E (take (Suc k) (v # p))" using "3.IH" [of "Suc k"] "3.prems" by simp
    then have "walk E (u # v # take k p)" using "3.prems" by simp
    then show ?thesis using n Suc by simp
  qed
qed

lemma walk_drop: "walk E p \<Longrightarrow> n < length p \<Longrightarrow> walk E (drop n p)"
proof (induction E p arbitrary: n rule: walk.induct)
  case (1 E)
  then show ?case by simp
next
  case (2 E v)
  then show ?case by simp
next
  case (3 E u v p)
  then show ?case by (cases n) auto
qed

lemma walk_rev: "walk (\<lambda>u v. E v u) (rev p) = walk E p"
proof (induction E p rule: walk.induct)
  case (1 E)
  then show ?case by simp
next
  case (2 E v)
  then show ?case by simp
next
  case (3 E u v p)
  have "walk (\<lambda>u v. E v u) ((rev p @ [v]) @ [u]) =
        (walk (\<lambda>u v. E v u) (rev p @ [v]) \<and> E u v)"
    by (subst walk_snoc) simp
  then show ?case using 3 by auto
qed

subsection \<open>Layered visited-maps: what they hold\<close>

lemma layered_nonempty: "layered E s gens \<Longrightarrow> gens \<noteq> []"
  by (cases gens) auto

lemma layered_source: "layered E s gens \<Longrightarrow> s \<in> set (visited_nodes gens)"
  by (induction E s gens rule: layered.induct) (auto simp: visited_nodes_Cons visited_nodes_Nil)

lemma layered_closed:
  "layered E s gens \<Longrightarrow> u \<in> set (visited_nodes (tl gens)) \<Longrightarrow> E u v \<Longrightarrow> v \<in> set (visited_nodes gens)"
proof (induction E s gens arbitrary: u v rule: layered.induct)
  case (1 E s)
  then show ?case by simp
next
  case (2 E s g)
  then show ?case by (simp add: visited_nodes_Nil)
next
  case (3 E s g g' gs)
  from "3.prems" have lay: "layered E s (g' # gs)"
    and iff: "\<And>v. v \<in> fst ` set g \<longleftrightarrow> v \<notin> set (visited_nodes (g' # gs)) \<and> (\<exists>u \<in> fst ` set g'. E u v)"
    by auto
  from "3.prems" have u: "u \<in> fst ` set g' \<or> u \<in> set (visited_nodes gs)"
    by (simp add: visited_nodes_Cons)
  show ?case
  proof (cases "u \<in> fst ` set g'")
    case True
    then show ?thesis using iff [of v] "3.prems"(3) by (auto simp: visited_nodes_Cons)
  next
    case False
    then have "u \<in> set (visited_nodes (tl (g' # gs)))" using u by simp
    then have "v \<in> set (visited_nodes (g' # gs))" using "3.IH" lay "3.prems"(3) by blast
    then show ?thesis by (simp add: visited_nodes_Cons)
  qed
qed

lemma layered_reach:
  "walk E p \<Longrightarrow> hd p = s \<Longrightarrow> layered E s gens \<Longrightarrow> length p \<le> length gens \<Longrightarrow>
   last p \<in> set (visited_nodes gens)"
proof (induction p arbitrary: gens rule: rev_induct)
  case Nil
  then show ?case by simp
next
  case (snoc v q)
  show ?case
  proof (cases "q = []")
    case True
    then show ?thesis using snoc.prems layered_source by auto
  next
    case False
    then have wq: "walk E q" and e: "E (last q) v" and hq: "hd q = s"
      using snoc.prems by (auto simp: walk_snoc)
    obtain g gs where gens: "gens = g # gs" using snoc.prems layered_nonempty by (cases gens) auto
    have len: "length q \<le> length gs" using snoc.prems gens by simp
    then have "gs \<noteq> []" using False by auto
    then obtain g' gs' where gs: "gs = g' # gs'" by (cases gs) auto
    have "layered E s gs" using snoc.prems(3) gens gs by simp
    then have "last q \<in> set (visited_nodes gs)" using snoc.IH wq hq len by blast
    then have "v \<in> set (visited_nodes gens)"
      using layered_closed [OF snoc.prems(3), of "last q" v] e gens by simp
    then show ?thesis by simp
  qed
qed

lemma layered_exhausted:
  "walk E p \<Longrightarrow> hd p = s \<Longrightarrow> layered E s gens \<Longrightarrow> hd gens = [] \<Longrightarrow>
   last p \<in> set (visited_nodes gens)"
proof (induction p rule: rev_induct)
  case Nil
  then show ?case by simp
next
  case (snoc v q)
  show ?case
  proof (cases "q = []")
    case True
    then show ?thesis using snoc.prems layered_source by auto
  next
    case False
    then have wq: "walk E q" and e: "E (last q) v" and hq: "hd q = s"
      using snoc.prems by (auto simp: walk_snoc)
    obtain g gs where gens: "gens = g # gs" using snoc.prems layered_nonempty by (cases gens) auto
    have "g = []" using snoc.prems gens by simp
    have "last q \<in> set (visited_nodes gens)" using snoc wq hq by blast
    then have "last q \<in> set (visited_nodes (tl gens))"
      using gens \<open>g = []\<close> by (simp add: visited_nodes_Cons)
    then have "v \<in> set (visited_nodes gens)"
      using layered_closed [OF snoc.prems(3), of "last q" v] e by simp
    then show ?thesis by simp
  qed
qed

subsection \<open>The reconstructed paths of a layered visited-map\<close>

lemma walk_length_one: "walk E p \<Longrightarrow> length p = Suc 0 \<Longrightarrow> p = [hd p]"
  by (cases p) auto

lemma paths_from_source_layered:
  "layered E s gens \<Longrightarrow> v \<in> fst ` set (hd gens) \<Longrightarrow>
   set (paths_from_source gens v) =
     {p. walk E p \<and> hd p = s \<and> last p = v \<and> length p = length gens}"
proof (induction E s gens arbitrary: v rule: layered.induct)
  case (1 E s)
  then show ?case by simp
next
  case (2 E s g)
  then have g: "g = [(s, [])]" and v: "v = s" by auto
  have "{p. walk E p \<and> hd p = s \<and> last p = s \<and> length p = Suc 0} = {[s]}"
    using walk_length_one by force
  then show ?case using g v by simp
next
  case (3 E s g g' gs)
  from "3.prems" have lay: "layered E s (g' # gs)"
    and iff: "\<And>v. v \<in> fst ` set g \<longleftrightarrow> v \<notin> set (visited_nodes (g' # gs)) \<and> (\<exists>u \<in> fst ` set g'. E u v)"
    and par: "\<And>v ps. map_of g v = Some ps \<Longrightarrow> ps \<noteq> [] \<and> set ps = {u \<in> fst ` set g'. E u v}"
    and vg: "v \<in> fst ` set g"
    by auto
  obtain ps where ps: "map_of g v = Some ps"
    using vg by (metis map_of_eq_None_iff not_None_eq)
  then have psne: "ps \<noteq> []" and pset: "set ps = {u \<in> fst ` set g'. E u v}"
    using par by auto
  have IH: "set (paths_from_source (g' # gs) u) =
      {p. walk E p \<and> hd p = s \<and> last p = u \<and> length p = length (g' # gs)}"
    if "u \<in> fst ` set g'" for u
    using "3.IH" [OF lay, of u] that by simp
  have vnew: "v \<notin> set (visited_nodes (g' # gs))" using iff vg by blast
  have eq: "set (paths_from_source (g # g' # gs) v) =
      (\<Union>u \<in> set ps. (\<lambda>p. p @ [v]) ` set (paths_from_source (g' # gs) u))"
    using ps psne by simp
  show ?case
  proof (rule set_eqI, rule iffI)
    fix p
    assume "p \<in> set (paths_from_source (g # g' # gs) v)"
    then have "p \<in> (\<Union>u \<in> set ps. (\<lambda>p. p @ [v]) ` set (paths_from_source (g' # gs) u))"
      unfolding eq .
    then obtain u q where u: "u \<in> set ps" and q: "q \<in> set (paths_from_source (g' # gs) u)"
      and p: "p = q @ [v]"
      by blast
    have ug: "u \<in> fst ` set g'" and e: "E u v" using u pset by auto
    have qq: "walk E q" "hd q = s" "last q = u" "length q = length (g' # gs)"
      using IH [OF ug] q by auto
    then have "q \<noteq> []" by auto
    then show "p \<in> {p. walk E p \<and> hd p = s \<and> last p = v \<and> length p = length (g # g' # gs)}"
      using qq e p by (simp add: walk_snoc)
  next
    fix p
    assume "p \<in> {p. walk E p \<and> hd p = s \<and> last p = v \<and> length p = length (g # g' # gs)}"
    then have w: "walk E p" and h: "hd p = s" and l: "last p = v"
      and len: "length p = Suc (Suc (length gs))" by auto
    then have "p \<noteq> []" by auto
    then obtain q where p: "p = q @ [v]" using l by (metis append_butlast_last_id)
    have qlen: "length q = Suc (length gs)" using len p by simp
    then have qne: "q \<noteq> []" by auto
    have wq: "walk E q" and e: "E (last q) v" using w p qne by (auto simp: walk_snoc)
    have hq: "hd q = s" using h p qne by simp
    have "last q \<in> set (visited_nodes (g' # gs))"
      using layered_reach [OF wq hq lay] qlen by simp
    moreover have "last q \<notin> set (visited_nodes (tl (g' # gs)))"
      using layered_closed [OF lay _ e] vnew by blast
    ultimately have ug: "last q \<in> fst ` set g'" by (simp add: visited_nodes_Cons)
    then have "last q \<in> set ps" using pset e by simp
    moreover have "q \<in> set (paths_from_source (g' # gs) (last q))"
      using IH [OF ug] wq hq qlen by simp
    ultimately have "p \<in> (\<Union>u \<in> set ps. (\<lambda>p. p @ [v]) ` set (paths_from_source (g' # gs) u))"
      using p by blast
    then show "p \<in> set (paths_from_source (g # g' # gs) v)"
      unfolding eq .
  qed
qed

lemma paths_to_target_rev: "paths_to_target gens v = map rev (paths_from_source gens v)"
proof (induction gens v rule: paths_from_source.induct)
  case (1 v)
  then show ?case by simp
next
  case (2 g gs v)
  show ?case
  proof (cases "map_of g v")
    case None
    then show ?thesis by simp
  next
    case (Some ps)
    show ?thesis
    proof (cases "ps = []")
      case True
      then show ?thesis using Some by simp
    next
      case False
      have "map (\<lambda>u. map ((#) v) (paths_to_target gs u)) ps =
            map (\<lambda>u. map rev (map (\<lambda>p. p @ [v]) (paths_from_source gs u))) ps"
        using 2 Some False by (simp add: comp_def)
      then have "concat (map (\<lambda>u. map ((#) v) (paths_to_target gs u)) ps) =
            map rev (concat (map (\<lambda>u. map (\<lambda>p. p @ [v]) (paths_from_source gs u)) ps))"
        by (simp only: map_concat map_map comp_def)
      then show ?thesis using Some False by simp
    qed
  qed
qed

lemma generations_until_suffix:
  "generations_until gens v = Some gs \<Longrightarrow> \<exists>pre. gens = pre @ gs"
proof (induction gens)
  case Nil
  then show ?case by simp
next
  case (Cons g gens)
  then show ?case
    by (cases "v \<in> fst ` set g") (auto intro: exI [of _ "[]"] simp: Cons_eq_append_conv)
qed

lemma generations_until_head:
  "generations_until gens v = Some gs \<Longrightarrow> gs \<noteq> [] \<and> v \<in> fst ` set (hd gs)"
  by (induction gens) (auto split: if_splits)

lemma generations_until_visited:
  "v \<in> set (visited_nodes gens) \<longleftrightarrow> generations_until gens v \<noteq> None"
  by (induction gens) (auto simp: visited_nodes_Cons visited_nodes_Nil)

lemma layered_suffix: "layered E s (pre @ gs) \<Longrightarrow> gs \<noteq> [] \<Longrightarrow> layered E s gs"
proof (induction pre)
  case Nil
  then show ?case by simp
next
  case (Cons g pre)
  then obtain g' rest where "pre @ gs = g' # rest" by (cases "pre @ gs") auto
  then show ?case using Cons by auto
qed

lemma generations_until_layered:
  assumes "layered E s gens" and "generations_until gens v = Some gs"
  shows "layered E s gs \<and> v \<in> fst ` set (hd gs) \<and> length gs \<le> length gens"
proof -
  obtain pre where "gens = pre @ gs" using generations_until_suffix assms(2) by blast
  moreover have "gs \<noteq> []" "v \<in> fst ` set (hd gs)" using generations_until_head assms(2) by auto
  ultimately show ?thesis using assms(1) layered_suffix by auto
qed

lemma generations_until_full:
  assumes "generations_until gens v = Some gs" and "length gs = length gens"
  shows "gs = gens"
proof -
  obtain pre where "gens = pre @ gs" using generations_until_suffix assms(1) by blast
  then show ?thesis using assms(2) by simp
qed

lemma layered_walk_exists:
  assumes "layered E s gens" and "v \<in> fst ` set (hd gens)"
  shows "\<exists>p. walk E p \<and> hd p = s \<and> last p = v \<and> length p = length gens"
  using assms
proof (induction E s gens arbitrary: v rule: layered.induct)
  case (1 E s)
  then show ?case by simp
next
  case (2 E s g)
  then have "walk E [s] \<and> hd [s] = s \<and> last [s] = v \<and> length [s] = length [g]" by auto
  then show ?case by blast
next
  case (3 E s g g' gs)
  then obtain u where u: "u \<in> fst ` set g'" and e: "E u v" by auto
  from "3.prems" have lay: "layered E s (g' # gs)" by simp
  obtain q where q: "walk E q" "hd q = s" "last q = u" "length q = length (g' # gs)"
    using "3.IH" [OF lay, of u] u by auto
  then have "q \<noteq> []" by auto
  then have "walk E (q @ [v]) \<and> hd (q @ [v]) = s \<and> last (q @ [v]) = v \<and>
      length (q @ [v]) = length (g # g' # gs)"
    using q e by (simp add: walk_snoc)
  then show ?case by blast
qed

subsection \<open>Two layered visited-maps that have not met\<close>

lemma layered_visited_walk:
  assumes "layered E s gens" and "v \<in> set (visited_nodes gens)"
  shows "\<exists>p gs. generations_until gens v = Some gs \<and> walk E p \<and> hd p = s \<and> last p = v \<and>
           length p = length gs \<and> length gs \<le> length gens"
proof -
  obtain gs where gs: "generations_until gens v = Some gs"
    using assms(2) generations_until_visited by auto
  then have "layered E s gs" "v \<in> fst ` set (hd gs)" "length gs \<le> length gens"
    using generations_until_layered [OF assms(1)] by auto
  then show ?thesis using layered_walk_exists gs by blast
qed

lemma hd_take_Suc: "p \<noteq> [] \<Longrightarrow> hd (take (Suc i) p) = hd p"
  by (cases p) auto

lemma last_take_Suc: "i < length p \<Longrightarrow> last (take (Suc i) p) = p ! i"
  by (simp add: take_Suc_conv_app_nth)

lemma take_drop_tl: "i < length p \<Longrightarrow> take (Suc i) p @ tl (drop i p) = p"
  by (metis append_take_drop_id drop_Suc tl_drop)

lemma no_short_walk:
  assumes Lf: "layered E s Lf" and Lb: "layered (\<lambda>u v. E v u) t Lb"
    and disj: "set (visited_nodes Lf) \<inter> set (visited_nodes Lb) = {}"
    and w: "walk E p" and h: "hd p = s" and l: "last p = t"
  shows "length Lf + length Lb \<le> length p"
proof (rule ccontr)
  assume "\<not> length Lf + length Lb \<le> length p"
  then have short: "length p < length Lf + length Lb" by simp
  have pne: "p \<noteq> []" using w by auto
  have Lfne: "Lf \<noteq> []" and Lbne: "Lb \<noteq> []" using Lf Lb layered_nonempty by auto
  define i where "i = min (length Lf) (length p) - 1"
  have pos: "Suc 0 \<le> length p" "Suc 0 \<le> length Lf" "Suc 0 \<le> length Lb"
    using pne Lfne Lbne by (simp_all add: Suc_le_eq)
  have i1: "i < length p" using pos short unfolding i_def by arith
  have i2: "Suc i \<le> length Lf" using pos short unfolding i_def by arith
  have i3: "length p - i \<le> length Lb" using pos short unfolding i_def by arith
  note i = i1 i2 i3
  have "walk E (take (Suc i) p)" using w by (rule walk_take) simp
  moreover have "hd (take (Suc i) p) = s" using h pne by (simp add: hd_take_Suc)
  moreover have "length (take (Suc i) p) \<le> length Lf" using i by simp
  ultimately have "last (take (Suc i) p) \<in> set (visited_nodes Lf)"
    using layered_reach Lf by blast
  then have inf: "p ! i \<in> set (visited_nodes Lf)" using i by (simp add: last_take_Suc)
  have wd: "walk E (drop i p)" using w i by (intro walk_drop)
  then have "walk (\<lambda>u v. E v u) (rev (drop i p))" by (simp add: walk_rev)
  moreover have "hd (rev (drop i p)) = t" using l i by (simp add: hd_rev)
  moreover have "length (rev (drop i p)) \<le> length Lb" using i by simp
  ultimately have "last (rev (drop i p)) \<in> set (visited_nodes Lb)"
    using layered_reach Lb by blast
  then have "p ! i \<in> set (visited_nodes Lb)" using i by (simp add: last_rev hd_drop_conv_nth)
  then show False using inf disj by blast
qed

lemma paths_to_target_layered:
  assumes "layered (\<lambda>u v. E v u) t gens" and "v \<in> fst ` set (hd gens)"
  shows "set (paths_to_target gens v) =
     {p. walk E p \<and> hd p = v \<and> last p = t \<and> length p = length gens}"
proof -
  have "set (paths_to_target gens v) = rev ` {p. walk (\<lambda>u v. E v u) p \<and> hd p = t \<and> last p = v \<and> length p = length gens}"
    using paths_from_source_layered [OF assms] by (simp add: paths_to_target_rev)
  also have "\<dots> = {p. walk E p \<and> hd p = v \<and> last p = t \<and> length p = length gens}"
  proof (rule set_eqI, rule iffI)
    fix p
    assume "p \<in> rev ` {p. walk (\<lambda>u v. E v u) p \<and> hd p = t \<and> last p = v \<and> length p = length gens}"
    then obtain q where q: "p = rev q" "walk (\<lambda>u v. E v u) q" "hd q = t" "last q = v" "length q = length gens"
      by auto
    then have "q \<noteq> []" by auto
    moreover have "walk E (rev q)" using q(2) walk_rev [of E "rev q"] by simp
    ultimately show "p \<in> {p. walk E p \<and> hd p = v \<and> last p = t \<and> length p = length gens}"
      using q by (simp add: hd_rev last_rev)
  next
    fix p
    assume "p \<in> {p. walk E p \<and> hd p = v \<and> last p = t \<and> length p = length gens}"
    then have p: "walk E p" "hd p = v" "last p = t" "length p = length gens" by auto
    then have "p \<noteq> []" by auto
    then have "walk (\<lambda>u v. E v u) (rev p) \<and> hd (rev p) = t \<and> last (rev p) = v \<and> length (rev p) = length gens"
      using p by (simp add: walk_rev hd_rev last_rev)
    then show "p \<in> rev ` {p. walk (\<lambda>u v. E v u) p \<and> hd p = t \<and> last p = v \<and> length p = length gens}"
      by (metis (mono_tags, lifting) image_eqI mem_Collect_eq rev_rev_ident)
  qed
  finally show ?thesis .
qed

lemma walk_join:
  assumes "walk E p" and "walk E q" and "last p = hd q"
  shows "walk E (p @ tl q) \<and> hd (p @ tl q) = hd p \<and> last (p @ tl q) = last q \<and>
         length (p @ tl q) = length p + length q - 1"
proof -
  have pne: "p \<noteq> []" and qne: "q \<noteq> []" using assms by auto
  have "last (p @ tl q) = last q"
  proof (cases "tl q = []")
    case True
    then have "q = [hd q]" using qne by (cases q) auto
    then have "last q = hd q" by (metis last.simps)
    then show ?thesis using True assms(3) by simp
  next
    case False
    then show ?thesis using qne by (simp add: last_tl)
  qed
  moreover have "length (p @ tl q) = length p + length q - 1"
  proof -
    have "Suc 0 \<le> length q" using qne by (simp add: Suc_le_eq)
    then show ?thesis by simp
  qed
  ultimately show ?thesis using walk_append [OF assms] pne by simp
qed

subsection \<open>The paths through the meeting nodes\<close>

lemma set_reconstruct_paths:
  "set (reconstruct_paths st) = (\<Union>m \<in> set (meeting_nodes st). set (paths_through st m))"
  by (simp add: reconstruct_paths_def)

lemma in_meeting_nodes:
  "m \<in> set (meeting_nodes st) \<longleftrightarrow>
     m \<in> set (visited_nodes (visited_forward st)) \<and>
     (\<exists>gf gb. generations_until (visited_forward st) m = Some gf \<and>
              generations_until (visited_backward st) m = Some gb \<and>
              (length gf - 1) + (length gb - 1) = forward_distance st + backward_distance st)"
  by (auto simp: meeting_nodes_def distance_reached_def split: option.splits)

lemma in_paths_through:
  "generations_until (visited_forward st) m = Some gf \<Longrightarrow>
   generations_until (visited_backward st) m = Some gb \<Longrightarrow>
   p \<in> set (paths_through st m) \<longleftrightarrow>
     (\<exists>p1 p2. p1 \<in> set (paths_from_source gf m) \<and> p2 \<in> set (paths_to_target gb m) \<and> p = p1 @ tl p2)"
  by (auto simp: paths_through_def)

lemma reconstruct_paths_walks:
  assumes Lf: "layered E s (visited_forward st)"
    and Lb: "layered (\<lambda>u v. E v u) t (visited_backward st)"
    and fd: "forward_distance st = length (visited_forward st) - 1"
    and bd: "backward_distance st = length (visited_backward st) - 1"
    and short: "\<And>p. walk E p \<Longrightarrow> hd p = s \<Longrightarrow> last p = t \<Longrightarrow>
        length (visited_forward st) + length (visited_backward st) - 1 \<le> length p"
  shows "set (reconstruct_paths st) =
     {p. walk E p \<and> hd p = s \<and> last p = t \<and>
         length p = length (visited_forward st) + length (visited_backward st) - 1}"
proof (rule set_eqI, rule iffI)
  fix p
  assume "p \<in> set (reconstruct_paths st)"
  then obtain m where m: "m \<in> set (meeting_nodes st)" and p: "p \<in> set (paths_through st m)"
    by (auto simp: set_reconstruct_paths)
  from m obtain gf gb where gf: "generations_until (visited_forward st) m = Some gf"
    and gb: "generations_until (visited_backward st) m = Some gb"
    and sum: "(length gf - 1) + (length gb - 1) = forward_distance st + backward_distance st"
    by (auto simp: in_meeting_nodes)
  from p obtain p1 p2 where p1: "p1 \<in> set (paths_from_source gf m)"
    and p2: "p2 \<in> set (paths_to_target gb m)" and pp: "p = p1 @ tl p2"
    using in_paths_through [OF gf gb] by blast
  have lgf: "layered E s gf" "m \<in> fst ` set (hd gf)" "length gf \<le> length (visited_forward st)"
    using generations_until_layered [OF Lf gf] by auto
  have lgb: "layered (\<lambda>u v. E v u) t gb" "m \<in> fst ` set (hd gb)" "length gb \<le> length (visited_backward st)"
    using generations_until_layered [OF Lb gb] by auto
  have w1: "walk E p1" "hd p1 = s" "last p1 = m" "length p1 = length gf"
    using paths_from_source_layered [OF lgf(1,2)] p1 by auto
  have w2: "walk E p2" "hd p2 = m" "last p2 = t" "length p2 = length gb"
    using paths_to_target_layered [OF lgb(1,2)] p2 by auto
  have j: "walk E p" "hd p = s" "last p = t" "length p = length gf + length gb - 1"
    using walk_join [OF w1(1) w2(1)] w1 w2 pp by auto
  have "Suc 0 \<le> length gf" "Suc 0 \<le> length gb"
    using layered_nonempty [OF lgf(1)] layered_nonempty [OF lgb(1)] by (simp_all add: Suc_le_eq)
  then have "length gf + length gb - 1 = length (visited_forward st) + length (visited_backward st) - 1"
    using sum fd bd lgf(3) lgb(3) by arith
  then show "p \<in> {p. walk E p \<and> hd p = s \<and> last p = t \<and>
         length p = length (visited_forward st) + length (visited_backward st) - 1}"
    using j by simp
next
  fix p
  assume "p \<in> {p. walk E p \<and> hd p = s \<and> last p = t \<and>
         length p = length (visited_forward st) + length (visited_backward st) - 1}"
  then have w: "walk E p" and h: "hd p = s" and l: "last p = t"
    and len: "length p = length (visited_forward st) + length (visited_backward st) - 1"
    by auto
  have pos: "Suc 0 \<le> length (visited_forward st)" "Suc 0 \<le> length (visited_backward st)"
    using layered_nonempty [OF Lf] layered_nonempty [OF Lb] by (simp_all add: Suc_le_eq)
  define i where "i = length (visited_forward st) - 1"
  have i: "i < length p" "length (visited_forward st) = Suc i"
    "length (visited_backward st) = length p - i"
    using pos len unfolding i_def by arith+
  define m where "m = p ! i"
  define p1 where "p1 = take (Suc i) p"
  define p2 where "p2 = drop i p"
  have pne: "p \<noteq> []" using w by auto
  have w1: "walk E p1" "hd p1 = s" "last p1 = m" "length p1 = length (visited_forward st)"
    using w h i pne unfolding p1_def m_def
    by (simp_all add: walk_take hd_take_Suc last_take_Suc)
  have w2: "walk E p2" "hd p2 = m" "last p2 = t" "length p2 = length (visited_backward st)"
    using w l i unfolding p2_def m_def
    by (simp_all add: walk_drop hd_drop_conv_nth)
  have pp: "p = p1 @ tl p2" unfolding p1_def p2_def using take_drop_tl [OF i(1)] by simp
  have mf: "m \<in> set (visited_nodes (visited_forward st))"
    using layered_reach [OF w1(1,2) Lf] w1 by simp
  have "walk (\<lambda>u v. E v u) (rev p2)" "hd (rev p2) = t" "last (rev p2) = m"
    using w2 walk_nonempty [OF w2(1)] by (simp_all add: walk_rev hd_rev last_rev)
  then have mb: "m \<in> set (visited_nodes (visited_backward st))"
    using layered_reach [OF _ _ Lb, of "rev p2"] w2(4) by simp
  obtain q1 gf where gf: "generations_until (visited_forward st) m = Some gf"
    and q1: "walk E q1" "hd q1 = s" "last q1 = m" "length q1 = length gf"
    and gfl: "length gf \<le> length (visited_forward st)"
    using layered_visited_walk [OF Lf mf] by blast
  obtain r2 gb where gb: "generations_until (visited_backward st) m = Some gb"
    and r2: "walk (\<lambda>u v. E v u) r2" "hd r2 = t" "last r2 = m" "length r2 = length gb"
    and gbl: "length gb \<le> length (visited_backward st)"
    using layered_visited_walk [OF Lb mb] by blast
  have r2ne: "r2 \<noteq> []" using r2(1) by auto
  have q2: "walk E (rev r2)" "hd (rev r2) = m" "last (rev r2) = t" "length (rev r2) = length gb"
    using r2 r2ne walk_rev [of E "rev r2"] by (simp_all add: hd_rev last_rev)
  have j: "walk E (q1 @ tl (rev r2))" "hd (q1 @ tl (rev r2)) = s" "last (q1 @ tl (rev r2)) = t"
    "length (q1 @ tl (rev r2)) = length gf + length gb - 1"
    using walk_join [OF q1(1) q2(1)] q1 q2 by auto
  have "length (visited_forward st) + length (visited_backward st) - 1 \<le> length gf + length gb - 1"
    using short [OF j(1,2,3)] j(4) by simp
  moreover have "Suc 0 \<le> length gf" "Suc 0 \<le> length gb"
    using generations_until_head [OF gf] generations_until_head [OF gb]
    by (simp_all add: Suc_le_eq)
  ultimately have eqs: "length gf = length (visited_forward st)" "length gb = length (visited_backward st)"
    using gfl gbl pos by arith+
  have gfe: "gf = visited_forward st" and gbe: "gb = visited_backward st"
    using generations_until_full [OF gf eqs(1)] generations_until_full [OF gb eqs(2)] by auto
  have hf: "m \<in> fst ` set (hd (visited_forward st))"
    and hb: "m \<in> fst ` set (hd (visited_backward st))"
    using generations_until_head [OF gf] generations_until_head [OF gb] gfe gbe by auto
  have "p1 \<in> set (paths_from_source gf m)"
    using paths_from_source_layered [OF Lf hf] w1 gfe by simp
  moreover have "p2 \<in> set (paths_to_target gb m)"
    using paths_to_target_layered [OF Lb hb] w2 gbe by simp
  ultimately have "p \<in> set (paths_through st m)"
    using in_paths_through [OF gf gb] pp by blast
  moreover have "m \<in> set (meeting_nodes st)"
    using mf gf gb eqs fd bd by (auto simp: in_meeting_nodes)
  ultimately show "p \<in> set (reconstruct_paths st)"
    by (auto simp: set_reconstruct_paths)
qed

subsection \<open>One round of the loop keeps the invariant\<close>

lemma expand_frontier_layered:
  assumes lay: "layered E s gens"
    and rows: "\<And>n v. v \<in> row_neighbors rows n \<longleftrightarrow> n \<in> set (frontier gens) \<and> E n v"
  shows "layered E s (expand_frontier gens rows # gens)"
proof -
  obtain g' gs where gens: "gens = g' # gs" using layered_nonempty [OF lay] by (cases gens) auto
  have fr: "set (frontier gens) = fst ` set g'" by (simp add: gens frontier_def)
  have "v \<in> fst ` set (expand_frontier gens rows) \<longleftrightarrow>
      v \<notin> set (visited_nodes gens) \<and> (\<exists>u \<in> fst ` set g'. E u v)" for v
    using rows fr by (auto simp: expand_frontier_props(2))
  moreover have "ps \<noteq> [] \<and> set ps = {u \<in> fst ` set g'. E u v}"
    if "map_of (expand_frontier gens rows) v = Some ps" for v ps
    using expand_frontier_props(3) [OF that] rows fr by auto
  ultimately show ?thesis
    using lay gens expand_frontier_props(1) [of gens rows] by simp
qed

lemma edge_has_row: "edge db u v \<Longrightarrow> has_row db u"
  by (auto simp: edge_def has_row_def)

lemma edge_target_has_row: "store_consistent db \<Longrightarrow> edge db u v \<Longrightarrow> has_row db v"
  by (fastforce simp: edge_def has_row_def store_consistent_def)

lemma incoming_edge:
  "store_consistent db \<Longrightarrow>
   (\<exists>r \<in> set (links db). row_id r = n \<and> v \<in> set (incoming_links r)) \<longleftrightarrow> edge db v n"
  unfolding edge_def store_consistent_def by (rule iffI) (blast, metis)

lemma search_inv_initial:
  "has_row db s \<Longrightarrow> has_row db t \<Longrightarrow> search_inv db s t (initial_state s t)"
  by (simp add: search_inv_def initial_state_def visited_nodes_def)

lemma search_inv_forward:
  assumes inv: "search_inv db s t st" and cons: "store_consistent db"
    and ff: "frontier (visited_forward st) \<noteq> []"
  shows "\<exists>g. expand db Forward st =
            Inr (st\<lparr>visited_forward := g # visited_forward st,
                    forward_distance := forward_distance st + 1\<rparr>) \<and>
          search_inv db s t (st\<lparr>visited_forward := g # visited_forward st,
                    forward_distance := forward_distance st + 1\<rparr>)"
proof -
  define rows where "rows = map (\<lambda>r. (row_id r, links_of Outgoing_links r))
                    (filter (\<lambda>r. row_id r \<in> set (frontier (visited_forward st))) (links db))"
  define g where "g = expand_frontier (visited_forward st) rows"
  have ex: "expand db Forward st =
            Inr (st\<lparr>visited_forward := g # visited_forward st,
                    forward_distance := forward_distance st + 1\<rparr>)"
    unfolding g_def rows_def by (rule expand_forward [OF ff])
  have lay: "layered (edge db) s (visited_forward st)" using inv by (simp add: search_inv_def)
  have rn: "v \<in> row_neighbors rows n \<longleftrightarrow> n \<in> set (frontier (visited_forward st)) \<and> edge db n v" for n v
    unfolding rows_def row_neighbors_fetched by (auto simp: edge_def)
  have lay': "layered (edge db) s (g # visited_forward st)"
    unfolding g_def using expand_frontier_layered [OF lay rn] .
  have "has_row db v" if "v \<in> fst ` set g" for v
  proof -
    have "v \<in> (\<Union>n. row_neighbors rows n)" using that unfolding g_def expand_frontier_props(2) by blast
    then obtain n where "edge db n v" using rn by blast
    then show ?thesis using edge_target_has_row [OF cons] by blast
  qed
  then have rows': "\<forall>v \<in> set (visited_nodes (g # visited_forward st)) \<union> set (visited_nodes (visited_backward st)). has_row db v"
    using inv by (auto simp: search_inv_def visited_nodes_Cons)
  have ne: "visited_forward st \<noteq> []" using layered_nonempty [OF lay] .
  have "search_inv db s t (st\<lparr>visited_forward := g # visited_forward st,
                    forward_distance := forward_distance st + 1\<rparr>)"
    using inv lay' rows' ne by (simp add: search_inv_def)
  then show ?thesis using ex by blast
qed

lemma search_inv_backward:
  assumes inv: "search_inv db s t st" and cons: "store_consistent db"
    and fb: "frontier (visited_backward st) \<noteq> []"
  shows "\<exists>g. expand db Backward st =
            Inr (st\<lparr>visited_backward := g # visited_backward st,
                    backward_distance := backward_distance st + 1\<rparr>) \<and>
          search_inv db s t (st\<lparr>visited_backward := g # visited_backward st,
                    backward_distance := backward_distance st + 1\<rparr>)"
proof -
  define rows where "rows = map (\<lambda>r. (row_id r, links_of Incoming_links r))
                    (filter (\<lambda>r. row_id r \<in> set (frontier (visited_backward st))) (links db))"
  define g where "g = expand_frontier (visited_backward st) rows"
  have ex: "expand db Backward st =
            Inr (st\<lparr>visited_backward := g # visited_backward st,
                    backward_distance := backward_distance st + 1\<rparr>)"
    unfolding g_def rows_def by (rule expand_backward [OF fb])
  have lay: "layered (\<lambda>u v. edge db v u) t (visited_backward st)" using inv by (simp add: search_inv_def)
  have rn: "v \<in> row_neighbors rows n \<longleftrightarrow> n \<in> set (frontier (visited_backward st)) \<and> edge db v n" for n v
    unfolding rows_def row_neighbors_fetched using incoming_edge [OF cons, of n v] by simp
  have lay': "layered (\<lambda>u v. edge db v u) t (g # visited_backward st)"
    unfolding g_def using expand_frontier_layered [OF lay, of rows] rn by simp
  have "has_row db v" if "v \<in> fst ` set g" for v
  proof -
    have "v \<in> (\<Union>n. row_neighbors rows n)" using that unfolding g_def expand_frontier_props(2) by blast
    then obtain n where "edge db v n" using rn by blast
    then show ?thesis using edge_has_row by blast
  qed
  then have rows': "\<forall>v \<in> set (visited_nodes (visited_forward st)) \<union> set (visited_nodes (g # visited_backward st)). has_row db v"
    using inv by (auto simp: search_inv_def visited_nodes_Cons)
  have ne: "visited_backward st \<noteq> []" using layered_nonempty [OF lay] .
  have "search_inv db s t (st\<lparr>visited_backward := g # visited_backward st,
                    backward_distance := backward_distance st + 1\<rparr>)"
    using inv lay' rows' ne by (simp add: search_inv_def)
  then show ?thesis using ex by blast
qed

lemma frontier_subset_visited: "set (frontier gens) \<subseteq> set (visited_nodes gens)"
  by (cases gens) (auto simp: frontier_def visited_nodes_Cons)

lemma fetch_count_frontier:
  assumes "fr \<noteq> []" and "\<forall>v \<in> set fr. has_row db v"
  shows "\<exists>c. fetch_links_count_helper db fr col = Inr (Some c)"
proof -
  obtain v where v: "v \<in> set fr" using assms(1) by (cases fr) auto
  then obtain r where "r \<in> set (links db)" "row_id r = v"
    using assms(2) by (auto simp: has_row_def)
  then show ?thesis using fetch_links_count_helper_some [OF assms(1), of r db col] v by blast
qed

lemma choose_direction_defined:
  assumes inv: "search_inv db s t st"
    and ff: "frontier (visited_forward st) \<noteq> []" and fb: "frontier (visited_backward st) \<noteq> []"
  shows "\<exists>d. choose_direction strat db st = Inr d"
proof (cases strat)
  case Cost_based
  have "\<forall>v \<in> set (frontier (visited_forward st)). has_row db v"
    using inv frontier_subset_visited [of "visited_forward st"] by (auto simp: search_inv_def)
  then obtain f where f: "fetch_outgoing_links_count db (frontier (visited_forward st)) = Inr (Some f)"
    using fetch_count_frontier [OF ff] unfolding fetch_outgoing_links_count_def by blast
  have "\<forall>v \<in> set (frontier (visited_backward st)). has_row db v"
    using inv frontier_subset_visited [of "visited_backward st"] by (auto simp: search_inv_def)
  then obtain b where b: "fetch_incoming_links_count db (frontier (visited_backward st)) = Inr (Some b)"
    using fetch_count_frontier [OF fb] unfolding fetch_incoming_links_count_def by blast
  show ?thesis using Cost_based f b by (simp add: choose_direction_def)
next
  case Always_forward
  then show ?thesis by (simp add: choose_direction_def)
next
  case Always_backward
  then show ?thesis by (simp add: choose_direction_def)
qed

lemma visited_intersection_empty:
  "visited_intersection st = [] \<longleftrightarrow>
     set (visited_nodes (visited_forward st)) \<inter> set (visited_nodes (visited_backward st)) = {}"
  by (auto simp: visited_intersection_def filter_empty_conv)

subsection \<open>The loop\<close>

lemma frontier_hd: "gens \<noteq> [] \<Longrightarrow> frontier gens = [] \<longleftrightarrow> hd gens = []"
  by (cases gens) (auto simp: frontier_def)

lemma no_path_when_exhausted:
  assumes inv: "search_inv db s t st"
    and disj: "set (visited_nodes (visited_forward st)) \<inter> set (visited_nodes (visited_backward st)) = {}"
    and empty: "frontier (visited_forward st) = [] \<or> frontier (visited_backward st) = []"
  shows "\<not> is_path db s t p"
proof
  assume "is_path db s t p"
  then have w: "walk (edge db) p" and h: "hd p = s" and l: "last p = t"
    by (auto simp: is_path_def)
  have Lf: "layered (edge db) s (visited_forward st)"
    and Lb: "layered (\<lambda>u v. edge db v u) t (visited_backward st)"
    using inv by (auto simp: search_inv_def)
  have sf: "s \<in> set (visited_nodes (visited_forward st))" using layered_source [OF Lf] .
  have tb: "t \<in> set (visited_nodes (visited_backward st))" using layered_source [OF Lb] .
  from empty show False
  proof
    assume "frontier (visited_forward st) = []"
    then have "hd (visited_forward st) = []" using frontier_hd layered_nonempty [OF Lf] by blast
    then have "t \<in> set (visited_nodes (visited_forward st))"
      using layered_exhausted [OF w h Lf] l by simp
    then show False using tb disj by blast
  next
    assume "frontier (visited_backward st) = []"
    then have e: "hd (visited_backward st) = []" using frontier_hd layered_nonempty [OF Lb] by blast
    have pne: "p \<noteq> []" using w by auto
    have "walk (\<lambda>u v. edge db v u) (rev p)" using w by (simp add: walk_rev)
    moreover have "hd (rev p) = t" using l pne by (simp add: hd_rev)
    ultimately have "last (rev p) \<in> set (visited_nodes (visited_backward st))"
      using layered_exhausted [OF _ _ Lb e] by blast
    then have "s \<in> set (visited_nodes (visited_backward st))" using h pne by (simp add: last_rev)
    then show False using sf disj by blast
  qed
qed

lemma found_shortest:
  assumes inv: "search_inv db s t st"
    and short: "\<And>p. is_path db s t p \<Longrightarrow>
        length (visited_forward st) + length (visited_backward st) - 1 \<le> length p"
    and meet: "visited_intersection st \<noteq> []"
  shows "set (reconstruct_paths st) = {p. shortest_path db s t p}"
proof -
  have Lf: "layered (edge db) s (visited_forward st)"
    and Lb: "layered (\<lambda>u v. edge db v u) t (visited_backward st)"
    and fd: "forward_distance st = length (visited_forward st) - 1"
    and bd: "backward_distance st = length (visited_backward st) - 1"
    using inv by (auto simp: search_inv_def)
  let ?L = "length (visited_forward st) + length (visited_backward st) - 1"
  have rec: "set (reconstruct_paths st) =
     {p. walk (edge db) p \<and> hd p = s \<and> last p = t \<and> length p = ?L}"
    using reconstruct_paths_walks [OF Lf Lb fd bd] short by (simp add: is_path_def)
  obtain m where mf: "m \<in> set (visited_nodes (visited_forward st))"
    and mb: "m \<in> set (visited_nodes (visited_backward st))"
    using meet by (auto simp: visited_intersection_empty)
  obtain q1 gf where gf: "generations_until (visited_forward st) m = Some gf"
    and q1: "walk (edge db) q1" "hd q1 = s" "last q1 = m" "length q1 = length gf"
    and gfl: "length gf \<le> length (visited_forward st)"
    using layered_visited_walk [OF Lf mf] by blast
  obtain r2 gb where gb: "generations_until (visited_backward st) m = Some gb"
    and r2: "walk (\<lambda>u v. edge db v u) r2" "hd r2 = t" "last r2 = m" "length r2 = length gb"
    and gbl: "length gb \<le> length (visited_backward st)"
    using layered_visited_walk [OF Lb mb] by blast
  have r2ne: "r2 \<noteq> []" using r2(1) by auto
  have q2: "walk (edge db) (rev r2)" "hd (rev r2) = m" "last (rev r2) = t" "length (rev r2) = length gb"
    using r2 r2ne walk_rev [of "edge db" "rev r2"] by (simp_all add: hd_rev last_rev)
  define q where "q = q1 @ tl (rev r2)"
  have j: "walk (edge db) q" "hd q = s" "last q = t" "length q = length gf + length gb - 1"
    unfolding q_def using walk_join [OF q1(1) q2(1)] q1 q2 by auto
  have qpath: "is_path db s t q" using j by (simp add: is_path_def)
  have qlen: "length q \<le> ?L" using j(4) gfl gbl by arith
  show ?thesis
  proof (rule set_eqI, rule iffI)
    fix p
    assume "p \<in> set (reconstruct_paths st)"
    then have "is_path db s t p" "length p = ?L" using rec by (auto simp: is_path_def)
    then show "p \<in> {p. shortest_path db s t p}"
      using short by (auto simp: shortest_path_def)
  next
    fix p
    assume "p \<in> {p. shortest_path db s t p}"
    then have p: "is_path db s t p" and min: "\<And>q. is_path db s t q \<Longrightarrow> length p \<le> length q"
      by (auto simp: shortest_path_def)
    have "length p \<le> ?L" using min [OF qpath] qlen by simp
    moreover have "?L \<le> length p" using short [OF p] .
    ultimately show "p \<in> set (reconstruct_paths st)"
      using p rec by (auto simp: is_path_def)
  qed
qed

lemma bfs_loop_correct:
  "store_consistent db \<Longrightarrow> search_inv db s t st \<Longrightarrow>
     set (visited_nodes (visited_forward st)) \<inter> set (visited_nodes (visited_backward st)) = {} \<Longrightarrow>
     \<exists>ps. bfs_loop strat db st = Inr ps \<and> distinct ps \<and> set ps = {p. shortest_path db s t p}"
proof (induction strat db st rule: bfs_loop.induct)
  case (1 strat db st)
  note cons = "1.prems"(1) and inv = "1.prems"(2) and disj = "1.prems"(3)
  show ?case
  proof (cases "frontier (visited_forward st) = [] \<or> frontier (visited_backward st) = []")
    case True
    then have "\<And>p. \<not> is_path db s t p" using no_path_when_exhausted [OF inv disj] by blast
    then have "{p. shortest_path db s t p} = {}" by (auto simp: shortest_path_def)
    moreover have "bfs_loop strat db st = Inr []" using True by (subst bfs_loop.simps) simp
    ultimately show ?thesis by simp
  next
    case False
    then have ff: "frontier (visited_forward st) \<noteq> []" and fb: "frontier (visited_backward st) \<noteq> []"
      by auto
    obtain d where d: "choose_direction strat db st = Inr d"
      using choose_direction_defined [OF inv ff fb] by blast
    have "\<exists>st'. expand db d st = Inr st' \<and> search_inv db s t st' \<and>
        length (visited_forward st') + length (visited_backward st') =
          Suc (length (visited_forward st) + length (visited_backward st))"
    proof (cases d)
      case Forward
      then show ?thesis using search_inv_forward [OF inv cons ff] by auto
    next
      case Backward
      then show ?thesis using search_inv_backward [OF inv cons fb] by auto
    qed
    then obtain st' where ex: "expand db d st = Inr st'" and inv': "search_inv db s t st'"
      and len: "length (visited_forward st') + length (visited_backward st') =
          Suc (length (visited_forward st) + length (visited_backward st))"
      by blast
    have Lf: "layered (edge db) s (visited_forward st)"
      and Lb: "layered (\<lambda>u v. edge db v u) t (visited_backward st)"
      using inv by (auto simp: search_inv_def)
    have short: "length (visited_forward st') + length (visited_backward st') - 1 \<le> length p"
      if "is_path db s t p" for p
      using no_short_walk [OF Lf Lb disj, of p] that len by (simp add: is_path_def)
    have unfold: "bfs_loop strat db st =
        (if visited_intersection st' \<noteq> [] then Inr (reconstruct_paths st')
         else bfs_loop strat db st')"
      using False d ex by (subst bfs_loop.simps) simp
    show ?thesis
    proof (cases "visited_intersection st' = []")
      case True
      then have disj': "set (visited_nodes (visited_forward st')) \<inter> set (visited_nodes (visited_backward st')) = {}"
        by (simp add: visited_intersection_empty)
      show ?thesis
        using "1.IH" [OF False d ex _ cons inv' disj'] True unfold by simp
    next
      case False
      then have "set (reconstruct_paths st') = {p. shortest_path db s t p}"
        using found_shortest [OF inv' short] by blast
      moreover have "distinct (reconstruct_paths st')" by (simp add: reconstruct_paths_def)
      ultimately show ?thesis using unfold False by simp
    qed
  qed
qed

section \<open>The search returns the shortest paths\<close>

lemma walk_first_edge: "walk E p \<Longrightarrow> hd p \<noteq> last p \<Longrightarrow> \<exists>v. E (hd p) v"
proof (cases p)
  case Nil
  assume "walk E p" then show ?thesis using Nil by simp
next
  case (Cons u q)
  assume w: "walk E p" and ne: "hd p \<noteq> last p"
  then obtain v r where "q = v # r" using Cons by (cases q) auto
  then show ?thesis using w Cons by auto
qed

lemma path_endpoints_have_rows:
  assumes cons: "store_consistent db" and p: "is_path db s t p" and ne: "s \<noteq> t"
  shows "has_row db s \<and> has_row db t"
proof -
  have w: "walk (edge db) p" and h: "hd p = s" and l: "last p = t"
    using p by (auto simp: is_path_def)
  have pne: "p \<noteq> []" using w by auto
  obtain v where "edge db s v" using walk_first_edge [OF w] h l ne by auto
  then have s: "has_row db s" by (rule edge_has_row)
  have "walk (\<lambda>u v. edge db v u) (rev p)" using w by (simp add: walk_rev)
  moreover have "hd (rev p) \<noteq> last (rev p)" using h l ne pne by (simp add: hd_rev last_rev)
  ultimately obtain u where "edge db u (hd (rev p))" using walk_first_edge by fastforce
  then have "edge db u t" using l pne by (simp add: hd_rev)
  then have "has_row db t" using edge_target_has_row [OF cons] by blast
  then show ?thesis using s by simp
qed

lemma shortest_path_exists: "is_path db s t p \<Longrightarrow> \<exists>q. shortest_path db s t q"
  unfolding shortest_path_def using ex_has_least_nat [of "is_path db s t" p length] by blast

lemma shortest_path_trivial: "{p. shortest_path db s s p} = {[s]}"
proof (rule set_eqI, rule iffI)
  fix p
  assume "p \<in> {p. shortest_path db s s p}"
  then have p: "is_path db s s p" and min: "\<And>q. is_path db s s q \<Longrightarrow> length p \<le> length q"
    by (auto simp: shortest_path_def)
  have "is_path db s s [s]" by (simp add: is_path_def)
  then have "length p \<le> 1" using min by fastforce
  moreover have "p \<noteq> []" using p by (auto simp: is_path_def)
  ultimately have "length p = Suc 0" by (cases p) auto
  then have "p = [hd p]" using p walk_length_one by (auto simp: is_path_def)
  then show "p \<in> {[s]}" using p by (simp add: is_path_def)
next
  fix p
  assume "p \<in> {[s]}"
  then have p: "p = [s]" by simp
  have "Suc 0 \<le> length q" if "is_path db s s q" for q
    using that by (cases q) (auto simp: is_path_def)
  then show "p \<in> {p. shortest_path db s s p}"
    using p by (simp add: shortest_path_def is_path_def)
qed

lemma breadth_first_search_with_correct:
  assumes cons: "store_consistent db"
    and nodes: "source = target \<or> (has_row db source \<and> has_row db target)"
  shows "\<exists>paths. breadth_first_search_with strat source target db = Inr paths \<and>
           distinct paths \<and> set paths = {p. shortest_path db source target p}"
proof (cases "source = target")
  case True
  then show ?thesis by (simp add: breadth_first_search_with_def shortest_path_trivial)
next
  case False
  then have rows: "has_row db source" "has_row db target" using nodes by auto
  have inv: "search_inv db source target (initial_state source target)"
    using search_inv_initial [OF rows] .
  have disj: "set (visited_nodes (visited_forward (initial_state source target))) \<inter>
      set (visited_nodes (visited_backward (initial_state source target))) = {}"
    using False by (simp add: initial_state_def visited_nodes_def)
  show ?thesis
    using bfs_loop_correct [OF cons inv disj, of strat] False
    by (simp add: breadth_first_search_with_def)
qed

lemma compute_shortest_paths_valid:
  "validate_page_id source = Inr () \<Longrightarrow> validate_page_id target = Inr () \<Longrightarrow>
   compute_shortest_paths validate_page_id db source target = breadth_first_search source target db"
  by (simp add: compute_shortest_paths_def)

section \<open>What title resolution returns\<close>

lemma find_SomeD: "find P xs = Some x \<Longrightarrow> x \<in> set xs \<and> P x"
  by (auto simp: find_Some_iff)

lemma fetch_redirect_target_SomeD:
  assumes "fetch_redirect_target db source_id = Some (target_id, title)"
  shows "(source_id, target_id) \<in> set (redirects db) \<and>
         (\<exists>is_redirect. (target_id, title, is_redirect) \<in> set (pages db))"
proof -
  let ?rows = "concat
             (map (\<lambda>(s, target_id).
                     map (\<lambda>(i, title, is_redirect). (target_id, title))
                       (filter (\<lambda>(i, title, is_redirect). i = target_id) (pages db)))
                (filter (\<lambda>(s, target_id). s = source_id) (redirects db)))"
  obtain rest where "?rows = (target_id, title) # rest"
    using assms by (auto simp: fetch_redirect_target_def split: list.splits)
  then have "(target_id, title) \<in> set ?rows"
    by (metis list.set_intros(1))
  then show ?thesis by auto
qed

lemma in_fetch_pages_by_title:
  "(i, title, is_redirect) \<in> set (fetch_pages_by_title lower db sanitized) \<longleftrightarrow>
     (i, title, is_redirect) \<in> set (pages db) \<and> lower title = lower sanitized"
  by (simp add: fetch_pages_by_title_def)

lemma fetch_page_sanitiser_error:
  "get_sanitized_page_title page_title = Inl e \<Longrightarrow>
   fetch_page get_sanitized_page_title get_readable_page_title lower db page_title = Inl e"
  by (simp add: fetch_page_def)

lemma fetch_page_nul:
  "get_sanitized_page_title page_title = Inr sanitized \<Longrightarrow> CHR 0x00 \<in> set sanitized \<Longrightarrow>
   fetch_page get_sanitized_page_title get_readable_page_title lower db page_title = Inl DataError"
  by (simp add: fetch_page_def)

text \<open>
  The outcomes of \<open>fetch_page\<close> for a title that the sanitiser and the driver accept, each
  with the condition under which it occurs: no page has the title up to case; a
  non-redirect page has it; all pages that have it are redirects and the first of them
  has no redirect row that joins a page; all are redirects and the first row that the
  redirect of the first of them joins is returned.
\<close>

lemma fetch_page_outcomes:
  assumes san: "get_sanitized_page_title page_title = Inr sanitized"
    and nul: "CHR 0x00 \<notin> set sanitized"
  shows "(fetch_pages_by_title lower db sanitized = [] \<and>
          fetch_page get_sanitized_page_title get_readable_page_title lower db page_title =
            Inl (title_does_not_exist page_title)) \<or>
         (\<exists>i title.
            fetch_page get_sanitized_page_title get_readable_page_title lower db page_title =
              Inr (i, get_readable_page_title title, False) \<and>
            (i, title, False) \<in> set (pages db) \<and> lower title = lower sanitized) \<or>
         (fetch_pages_by_title lower db sanitized \<noteq> [] \<and>
          (\<forall>(i, title, is_redirect) \<in> set (fetch_pages_by_title lower db sanitized). is_redirect) \<and>
          fetch_redirect_target db (fst (hd (fetch_pages_by_title lower db sanitized))) = None \<and>
          fetch_page get_sanitized_page_title get_readable_page_title lower db page_title =
            Inl (title_does_not_exist page_title)) \<or>
         (\<exists>i title is_redirect.
            fetch_pages_by_title lower db sanitized \<noteq> [] \<and>
            (\<forall>(i, title, is_redirect) \<in> set (fetch_pages_by_title lower db sanitized). is_redirect) \<and>
            fetch_redirect_target db (fst (hd (fetch_pages_by_title lower db sanitized))) =
              Some (i, title) \<and>
            fetch_page get_sanitized_page_title get_readable_page_title lower db page_title =
              Inr (i, get_readable_page_title title, True) \<and>
            (fst (hd (fetch_pages_by_title lower db sanitized)), i) \<in> set (redirects db) \<and>
            (i, title, is_redirect) \<in> set (pages db) \<and>
            (redirects_resolved db \<longrightarrow> \<not> is_redirect))"
proof -
  define results where "results = fetch_pages_by_title lower db sanitized"
  have in_results: "(i, title, r) \<in> set results \<Longrightarrow>
      (i, title, r) \<in> set (pages db) \<and> lower title = lower sanitized" for i title r
    unfolding results_def by (simp add: in_fetch_pages_by_title)
  have res: "\<not> is_redirect"
    if "redirects_resolved db" "(s, i) \<in> set (redirects db)" "(i, title, is_redirect) \<in> set (pages db)"
    for s i title is_redirect
    using that unfolding redirects_resolved_def by fastforce
  show ?thesis
  proof (cases "results = []")
    case True
    then show ?thesis using san nul by (simp add: fetch_page_def results_def)
  next
    case ne: False
    show ?thesis
    proof (cases "find (\<lambda>(i, title, is_redirect). title = sanitized \<and> \<not> is_redirect) results")
      case (Some row)
      obtain i title r where row: "row = (i, title, r)" by (cases row)
      have "(i, title, r) \<in> set results" "\<not> r" using find_SomeD [OF Some] row by auto
      then have "(i, title, False) \<in> set (pages db)" "lower title = lower sanitized"
        using in_results by fastforce+
      moreover have "fetch_page get_sanitized_page_title get_readable_page_title lower db page_title =
              Inr (i, get_readable_page_title title, False)"
        using san nul ne Some row by (simp add: fetch_page_def results_def [symmetric])
      ultimately show ?thesis by blast
    next
      case exact: None
      show ?thesis
      proof (cases "find (\<lambda>(i, title, is_redirect). \<not> is_redirect) results")
        case (Some row)
        obtain i title r where row: "row = (i, title, r)" by (cases row)
        have "(i, title, r) \<in> set results" "\<not> r" using find_SomeD [OF Some] row by auto
        then have "(i, title, False) \<in> set (pages db)" "lower title = lower sanitized"
          using in_results by fastforce+
        moreover have "fetch_page get_sanitized_page_title get_readable_page_title lower db page_title =
              Inr (i, get_readable_page_title title, False)"
          using san nul ne exact Some row by (simp add: fetch_page_def results_def [symmetric])
        ultimately show ?thesis by blast
      next
        case none: None
        then have all: "\<forall>(i, title, is_redirect) \<in> set results. is_redirect"
          by (auto simp: find_None_iff)
        show ?thesis
        proof (cases "fetch_redirect_target db (fst (hd results))")
          case None
          then have "fetch_page get_sanitized_page_title get_readable_page_title lower db page_title =
              Inl (title_does_not_exist page_title)"
            using san nul ne exact none by (simp add: fetch_page_def results_def [symmetric])
          then show ?thesis using ne all None unfolding results_def by blast
        next
          case (Some row)
          obtain i title where row: "row = (i, title)" by (cases row)
          have r: "fetch_page get_sanitized_page_title get_readable_page_title lower db page_title =
              Inr (i, get_readable_page_title title, True)"
            using san nul ne exact none Some row by (simp add: fetch_page_def results_def [symmetric])
          obtain is_redirect where t: "(fst (hd results), i) \<in> set (redirects db)"
            "(i, title, is_redirect) \<in> set (pages db)"
            using fetch_redirect_target_SomeD [of db "fst (hd results)" i title] Some row by blast
          have "redirects_resolved db \<longrightarrow> \<not> is_redirect" using res t by blast
          then show ?thesis using ne all Some row r t unfolding results_def by blast
        qed
      qed
    qed
  qed
qed

lemma route_unknown_source:
  assumes "fetch_page get_sanitized_page_title get_readable_page_title lower db (json_source req) =
             Inl (ValueError m)"
  shows "shortest_paths_route get_sanitized_page_title get_readable_page_title lower
           validate_page_id fetch_wikipedia_pages_info execute elapsed db req =
         Inl (start_page_does_not_exist (json_source req))"
  using assms by (simp add: shortest_paths_route_def fetch_page_or_invalid_def)

lemma route_unknown_target:
  assumes "fetch_page get_sanitized_page_title get_readable_page_title lower db (json_source req) =
             Inr page"
    and "fetch_page get_sanitized_page_title get_readable_page_title lower db (json_target req) =
             Inl (ValueError m)"
  shows "shortest_paths_route get_sanitized_page_title get_readable_page_title lower
           validate_page_id fetch_wikipedia_pages_info execute elapsed db req =
         Inl (end_page_does_not_exist (json_target req))"
  using assms
  by (simp add: shortest_paths_route_def fetch_page_or_invalid_def split: prod.splits)

section \<open>Claims about the Adjacency Store operations\<close>

text \<open>
  C4, as stated: the batched neighbours operation returns an entry for every requested ID.
  It does not: asked for pages 1 and 2 of the example store, either direction returns the
  single entry of page 2.  Page 1 has no row in \<open>links\<close> and gets no entry at all.
\<close>

theorem fetch_links_no_entry_for_missing_row:
  "fetch_outgoing_links example_store [1, 2] = Inr [(2, [3])] \<and>
   fetch_incoming_links example_store [1, 2] = Inr [(2, [])]"
  by (simp add: fetch_outgoing_links_def fetch_incoming_links_def fetch_links_helper_rows
      example_store_def)

text \<open>
  C4, amended: for a non-empty collection of requested IDs and either direction, the
  operation succeeds and returns exactly one entry per row of \<open>links\<close> whose id is
  requested, in storage order, carrying that row's neighbour list (the empty list when the
  row has no edge in that direction).  The IDs that have an entry are the requested IDs
  that have a row.
\<close>

theorem fetch_links_entries:
  assumes "page_ids \<noteq> []"
  shows "\<exists>out inc.
           fetch_outgoing_links db page_ids = Inr out \<and>
           fetch_incoming_links db page_ids = Inr inc \<and>
           out = map (\<lambda>r. (row_id r, outgoing_links r))
                   (filter (\<lambda>r. row_id r \<in> set page_ids) (links db)) \<and>
           inc = map (\<lambda>r. (row_id r, incoming_links r))
                   (filter (\<lambda>r. row_id r \<in> set page_ids) (links db)) \<and>
           fst ` set out = set page_ids \<inter> row_id ` set (links db) \<and>
           fst ` set inc = set page_ids \<inter> row_id ` set (links db)"
proof -
  have "fst ` set (map (\<lambda>r. (row_id r, f r)) (filter (\<lambda>r. row_id r \<in> set page_ids) (links db)))
        = set page_ids \<inter> row_id ` set (links db)" for f :: "link_row \<Rightarrow> int list"
    by force
  then show ?thesis
    using assms
    by (simp add: fetch_outgoing_links_def fetch_incoming_links_def fetch_links_helper_rows)
qed

theorem fetch_links_entries_witness:
  "\<exists>out inc.
     fetch_outgoing_links example_store [3, 2] = Inr out \<and>
     fetch_incoming_links example_store [3, 2] = Inr inc \<and>
     out = [(2, [3]), (3, [])] \<and> inc = [(2, []), (3, [2])] \<and>
     fst ` set out = {2, 3} \<and> fst ` set inc = {2, 3}"
proof -
  have ne: "[3, 2] \<noteq> ([] :: int list)" by simp
  show ?thesis
    using fetch_links_entries [OF ne, of example_store]
    by (simp add: example_store_def)
qed

text \<open>
  C5, at the failing input: the sum of the stored counters of page 1, which has no row in
  \<open>links\<close>, is \<open>None\<close> in both directions, not an integer.
\<close>

theorem fetch_links_count_none:
  "fetch_outgoing_links_count example_store [1] = Inr None \<and>
   fetch_incoming_links_count example_store [1] = Inr None"
  by (simp add: fetch_outgoing_links_count_def fetch_incoming_links_count_def
      fetch_links_count_helper_sum example_store_def)

text \<open>
  C10: for the empty collection the text spliced after \<open>IN\<close> is \<^verbatim>\<open>()\<close>, which is not
  a list SQL accepts; both helpers fail with the syntax error on the empty collection, and
  on the empty collection only.
\<close>

theorem empty_page_ids_malformed:
  "page_ids_sql [] = ''()'' \<and> sql_in_list ''()'' = None \<and>
   (fetch_links_helper db page_ids col = Inl SqlSyntaxError \<longleftrightarrow> page_ids = []) \<and>
   (fetch_links_count_helper db page_ids ccol = Inl SqlSyntaxError \<longleftrightarrow> page_ids = [])"
proof -
  have "sql_in_list ''()'' = None"
    by (simp add: sql_in_list_def sql_int_literal_def)
  moreover have "fetch_links_helper db page_ids col = Inl SqlSyntaxError \<longleftrightarrow> page_ids = []"
    by (cases "page_ids = []") (simp_all add: fetch_links_helper_empty fetch_links_helper_rows)
  moreover have "fetch_links_count_helper db page_ids ccol = Inl SqlSyntaxError \<longleftrightarrow> page_ids = []"
    by (cases "page_ids = []")
      (simp_all add: fetch_links_count_helper_empty fetch_links_count_helper_sum Let_def)
  ultimately show ?thesis
    by (simp add: page_ids_sql_empty)
qed

section \<open>Claims about the shortest-paths search\<close>

text \<open>The example stores: what they hold and what the search returns on them.\<close>

lemma diamond_store_consistent: "store_consistent diamond_store"
  by (simp add: store_consistent_def diamond_store_def)

lemma diamond_store_rows: "has_row diamond_store 1" "has_row diamond_store 4"
  by (simp_all add: has_row_def diamond_store_def)

lemma diamond_store_search:
  "breadth_first_search_with Cost_based 1 4 diamond_store = Inr [[1, 3, 4], [1, 2, 4]]"
  "breadth_first_search_with Always_forward 1 4 diamond_store = Inr [[1, 3, 4], [1, 2, 4]]"
  "breadth_first_search_with Always_backward 1 4 diamond_store = Inr [[1, 3, 4], [1, 2, 4]]"
  by code_simp+

lemma disconnected_store_consistent: "store_consistent disconnected_store"
  by (simp add: store_consistent_def disconnected_store_def)

lemma disconnected_store_rows: "has_row disconnected_store 1" "has_row disconnected_store 4"
  by (simp_all add: has_row_def disconnected_store_def)

lemma disconnected_store_walk:
  "walk (edge disconnected_store) p \<Longrightarrow> hd p = 1 \<or> hd p = 2 \<Longrightarrow> last p = 1 \<or> last p = 2"
proof (induction "edge disconnected_store" p rule: walk.induct)
  case 1
  then show ?case by simp
next
  case (2 v)
  then show ?case by simp
next
  case (3 u v p)
  then have "edge disconnected_store u v" by simp
  then have "v = 1 \<or> v = 2" using "3.prems"(2) by (auto simp: edge_def disconnected_store_def)
  then show ?case using 3 by simp
qed

lemma disconnected_store_unreachable: "\<not> is_path disconnected_store 1 4 p"
  using disconnected_store_walk [of p] by (auto simp: is_path_def)

lemma example_store_consistent: "store_consistent example_store"
  by (simp add: store_consistent_def example_store_def)


text \<open>
  C1: in a store that holds one graph, whenever the target can be reached from the source
  (and both IDs pass the validation), \<open>compute_shortest_paths\<close>, which is what
  \<open>breadth_first_search\<close> returns, succeeds with a non-empty list of paths that has no
  duplicate and whose members are exactly the shortest paths from the source to the target:
  each is a path of the graph from the source to the target, no path between them has
  fewer nodes, and every path of that minimal length is in the list.
\<close>

theorem all_shortest_paths_returned:
  assumes "store_consistent db" and "is_path db source target p"
    and "validate_page_id source = Inr ()" and "validate_page_id target = Inr ()"
  shows "\<exists>paths.
           compute_shortest_paths validate_page_id db source target = Inr paths \<and>
           breadth_first_search source target db = Inr paths \<and>
           paths \<noteq> [] \<and> distinct paths \<and>
           set paths = {q. shortest_path db source target q} \<and>
           (\<forall>q \<in> set paths. is_path db source target q \<and>
              (\<forall>r. is_path db source target r \<longrightarrow> length q \<le> length r))"
proof -
  have "source = target \<or> (has_row db source \<and> has_row db target)"
    using path_endpoints_have_rows [OF assms(1,2)] by blast
  then obtain paths where paths: "breadth_first_search source target db = Inr paths"
    "distinct paths" "set paths = {q. shortest_path db source target q}"
    using breadth_first_search_with_correct [OF assms(1), of source target Cost_based]
    by (auto simp: breadth_first_search_def)
  obtain q where "shortest_path db source target q" using shortest_path_exists [OF assms(2)] ..
  then have "paths \<noteq> []" using paths(3) by auto
  moreover have "\<forall>q \<in> set paths. is_path db source target q \<and>
              (\<forall>r. is_path db source target r \<longrightarrow> length q \<le> length r)"
    using paths(3) by (auto simp: shortest_path_def)
  ultimately show ?thesis
    using paths compute_shortest_paths_valid [OF assms(3,4), of db] by simp
qed

theorem all_shortest_paths_returned_witness:
  "compute_shortest_paths accept_positive_id diamond_store 1 4 = Inr [[1, 3, 4], [1, 2, 4]] \<and>
   breadth_first_search 1 4 diamond_store = Inr [[1, 3, 4], [1, 2, 4]] \<and>
   {q. shortest_path diamond_store 1 4 q} = {[1, 3, 4], [1, 2, 4]}"
proof -
  have path: "is_path diamond_store 1 4 [1, 2, 4]"
    by (simp add: is_path_def edge_def diamond_store_def)
  have v: "accept_positive_id 1 = Inr ()" "accept_positive_id 4 = Inr ()"
    by (simp_all add: accept_positive_id_def)
  show ?thesis
    using all_shortest_paths_returned [OF diamond_store_consistent path v]
      diamond_store_search(1)
    by (auto simp: breadth_first_search_def)
qed

text \<open>
  C2: with the source equal to the target the search returns the one path that consists of
  that node, whatever the store holds and however the side to expand is chosen; so does
  \<open>compute_shortest_paths\<close> for an ID that passes the validation.
\<close>

theorem same_source_and_target:
  "breadth_first_search n n db = Inr [[n]] \<and>
   breadth_first_search_with strat n n db = Inr [[n]] \<and>
   compute_shortest_paths validate_page_id db n n =
     (case validate_page_id n of Inl e \<Rightarrow> Inl e | Inr _ \<Rightarrow> Inr [[n]])"
  by (simp add: breadth_first_search_def breadth_first_search_with_def
      compute_shortest_paths_def split: sum.splits)


text \<open>
  Where the source and the target each have a row in \<open>links\<close> the degree sums are integers,
  and the search of a store that holds one graph returns the empty list whenever no path
  leads from the source to the target, as on the disconnected store.
\<close>

lemma unreachable_returns_empty:
  assumes "store_consistent db" and "has_row db source" and "has_row db target"
    and "\<And>p. \<not> is_path db source target p"
    and "validate_page_id source = Inr ()" and "validate_page_id target = Inr ()"
  shows "breadth_first_search source target db = Inr [] \<and>
         compute_shortest_paths validate_page_id db source target = Inr []"
proof -
  obtain paths where paths: "breadth_first_search source target db = Inr paths"
    "set paths = {q. shortest_path db source target q}"
    using breadth_first_search_with_correct [OF assms(1), of source target Cost_based] assms(2,3)
    by (auto simp: breadth_first_search_def)
  have "set paths = {}" using paths(2) assms(4) by (auto simp: shortest_path_def)
  then show ?thesis
    using paths(1) compute_shortest_paths_valid [OF assms(5,6), of db] by simp
qed

lemma disconnected_store_search:
  "breadth_first_search 1 4 disconnected_store = Inr [] \<and>
   compute_shortest_paths accept_positive_id disconnected_store 1 4 = Inr []"
proof -
  have v: "accept_positive_id 1 = Inr ()" "accept_positive_id 4 = Inr ()"
    by (simp_all add: accept_positive_id_def)
  show ?thesis
    using unreachable_returns_empty [OF disconnected_store_consistent disconnected_store_rows
        disconnected_store_unreachable v] .
qed


text \<open>
  Where the source and the target each have a row in \<open>links\<close>, the three engines succeed on
  a store that holds one graph and return the same set of paths, the shortest ones.
\<close>

lemma direction_choice_irrelevant:
  assumes "store_consistent db" and "has_row db source" and "has_row db target"
  shows "\<exists>paths forward_paths backward_paths.
           breadth_first_search_with Cost_based source target db = Inr paths \<and>
           breadth_first_search_with Always_forward source target db = Inr forward_paths \<and>
           breadth_first_search_with Always_backward source target db = Inr backward_paths \<and>
           set forward_paths = set paths \<and> set backward_paths = set paths"
proof -
  have nodes: "source = target \<or> (has_row db source \<and> has_row db target)"
    using assms(2,3) by simp
  obtain paths where "breadth_first_search_with Cost_based source target db = Inr paths"
    "set paths = {q. shortest_path db source target q}"
    using breadth_first_search_with_correct [OF assms(1) nodes] by blast
  moreover obtain forward_paths where
    "breadth_first_search_with Always_forward source target db = Inr forward_paths"
    "set forward_paths = {q. shortest_path db source target q}"
    using breadth_first_search_with_correct [OF assms(1) nodes] by blast
  moreover obtain backward_paths where
    "breadth_first_search_with Always_backward source target db = Inr backward_paths"
    "set backward_paths = {q. shortest_path db source target q}"
    using breadth_first_search_with_correct [OF assms(1) nodes] by blast
  ultimately show ?thesis by simp
qed

lemma diamond_store_direction_choice:
  "\<exists>paths forward_paths backward_paths.
     breadth_first_search_with Cost_based 1 4 diamond_store = Inr paths \<and>
     breadth_first_search_with Always_forward 1 4 diamond_store = Inr forward_paths \<and>
     breadth_first_search_with Always_backward 1 4 diamond_store = Inr backward_paths \<and>
     set forward_paths = set paths \<and> set backward_paths = set paths \<and>
     set paths = {[1, 2, 4], [1, 3, 4]}"
  using direction_choice_irrelevant [OF diamond_store_consistent diamond_store_rows]
    diamond_store_search
  by auto

text \<open>
  C6, as stated: a call with an ID that is not in the store fails fast.  It does not: page
  9 is in no table of the example store, and the call with 9 as source and target, which
  the validator accepts, returns the trivial path.
\<close>

theorem absent_id_not_rejected:
  "\<not> has_row example_store 9 \<and> 9 \<notin> fst ` set (pages example_store) \<and>
   compute_shortest_paths accept_positive_id example_store 9 9 = Inr [[9]]"
  by (simp add: has_row_def example_store_def compute_shortest_paths_def accept_positive_id_def
      breadth_first_search_def breadth_first_search_with_def)

text \<open>
  C6, amended: \<open>compute_shortest_paths\<close> fails fast, with the error of \<open>validate_page_id\<close> and
  before the search is entered, exactly when \<open>validate_page_id\<close> rejects the source ID or
  the target ID.  The check is given the ID alone, so the outcome is the same for every
  store; with both IDs accepted the call is the search, whatever the store holds.
\<close>

theorem validation_ignores_store:
  "(validate_page_id source = Inl e \<longrightarrow>
      compute_shortest_paths validate_page_id db source target = Inl e) \<and>
   (validate_page_id source = Inr () \<and> validate_page_id target = Inl e \<longrightarrow>
      compute_shortest_paths validate_page_id db source target = Inl e) \<and>
   (validate_page_id source = Inr () \<and> validate_page_id target = Inr () \<longrightarrow>
      compute_shortest_paths validate_page_id db source target =
        breadth_first_search source target db)"
  by (simp add: compute_shortest_paths_def)

theorem validation_ignores_store_witness:
  "compute_shortest_paths accept_positive_id diamond_store 0 4 =
     Inl (ValueError ''Invalid page ID provided.'') \<and>
   compute_shortest_paths accept_positive_id example_store 0 4 =
     Inl (ValueError ''Invalid page ID provided.'') \<and>
   compute_shortest_paths accept_positive_id diamond_store 1 0 =
     Inl (ValueError ''Invalid page ID provided.'') \<and>
   compute_shortest_paths accept_positive_id example_store 9 9 =
     breadth_first_search 9 9 example_store"
  using validation_ignores_store [of accept_positive_id 0 "ValueError ''Invalid page ID provided.''" diamond_store 4]
    validation_ignores_store [of accept_positive_id 0 "ValueError ''Invalid page ID provided.''" example_store 4]
    validation_ignores_store [of accept_positive_id 1 "ValueError ''Invalid page ID provided.''" diamond_store 0]
    validation_ignores_store [of accept_positive_id 9 "ValueError ''Invalid page ID provided.''" example_store 9]
  by (simp add: accept_positive_id_def)

section \<open>Claims about title resolution and the route\<close>

text \<open>
  C7, at the failing input: a title that resolves should resolve to a page that is not a
  redirect.  In the chained store the title of page 1 resolves, with the flag true, to page
  2, which is itself a redirect: \<open>fetch_page\<close> follows the redirect of the first match once
  and, unlike its two loops over the matches, does not look at the redirect column of what
  it returns.
\<close>

theorem fetch_page_returns_redirect:
  "fetch_page underscore_title blank_title ascii_lower chained_store ''Old'' =
     Inr (2, ''Newer'', True) \<and>
   (2, ''Newer'', True) \<in> set (pages chained_store) \<and>
   (2, ''Newer'', False) \<notin> set (pages chained_store)"
  by (simp add: fetch_page_def fetch_pages_by_title_def underscore_title_def blank_title_def
      chained_store_def ascii_lower_def fetch_redirect_target_def)

text \<open>
  Where every redirect points at a page that is no redirect, a redirect resolves to that
  page; an unknown title is answered by the route with the \<open>InvalidRequest\<close>.
\<close>

lemma redirect_store_resolution:
  "redirects_resolved redirect_store"
  "fetch_page underscore_title blank_title ascii_lower redirect_store ''Sol'' =
     Inr (1, ''Sun'', True)"
  "fetch_page underscore_title blank_title ascii_lower redirect_store ''Moon'' =
     Inl (title_does_not_exist ''Moon'')"
  "shortest_paths_route underscore_title blank_title ascii_lower accept_positive_id ids_as_info
     lost_connection 5 redirect_store \<lparr>json_source = ''Moon'', json_target = ''Sol''\<rparr> =
     Inl (start_page_does_not_exist ''Moon'')"
proof -
  show "redirects_resolved redirect_store"
    by (simp add: redirects_resolved_def redirect_store_def)
  show "fetch_page underscore_title blank_title ascii_lower redirect_store ''Sol'' =
     Inr (1, ''Sun'', True)"
    by (simp add: fetch_page_def fetch_pages_by_title_def underscore_title_def blank_title_def
        redirect_store_def ascii_lower_def fetch_redirect_target_def)
  show moon: "fetch_page underscore_title blank_title ascii_lower redirect_store ''Moon'' =
     Inl (title_does_not_exist ''Moon'')"
    by (simp add: fetch_page_def fetch_pages_by_title_def underscore_title_def
        redirect_store_def ascii_lower_def)
  have "fetch_page underscore_title blank_title ascii_lower redirect_store
          (json_source \<lparr>json_source = ''Moon'', json_target = ''Sol''\<rparr>) =
        Inl (ValueError ''Invalid page title Moon provided. Page title does not exist.'')"
    using moon by (simp add: title_does_not_exist_def)
  then show "shortest_paths_route underscore_title blank_title ascii_lower accept_positive_id
     ids_as_info lost_connection 5 redirect_store \<lparr>json_source = ''Moon'', json_target = ''Sol''\<rparr> =
     Inl (start_page_does_not_exist ''Moon'')"
    by (simp add: route_unknown_source)
qed

text \<open>
  C8: when both titles resolve, the search succeeds and (if a path was found) the page
  details are fetched, the route returns the response that carries the computed paths,
  whatever the connection does with the insertion into \<open>searches\<close>; an exception raised by
  \<open>insert_result\<close> does not leave the route and is found in the log.
\<close>

theorem insert_failure_contained:
  assumes "fetch_page get_sanitized_page_title get_readable_page_title lower db (json_source req) =
             Inr (source_page_id, source_page_title, is_source_redirected)"
    and "fetch_page get_sanitized_page_title get_readable_page_title lower db (json_target req) =
             Inr (target_page_id, target_page_title, is_target_redirected)"
    and "compute_shortest_paths validate_page_id db source_page_id target_page_id = Inr paths"
    and "paths = [] \<or>
         fetch_wikipedia_pages_info (remdups (map py_str_int (concat paths))) db = Inr info"
  shows "\<exists>log.
           shortest_paths_route get_sanitized_page_title get_readable_page_title lower
             validate_page_id fetch_wikipedia_pages_info execute elapsed db req =
             Inr (\<lparr>sourcePageTitle = source_page_title, targetPageTitle = target_page_title,
                   isSourceRedirected = is_source_redirected,
                   isTargetRedirected = is_target_redirected,
                   response_paths = paths,
                   response_pages = (if paths = [] then Empty_list else Pages_info info)\<rparr>,
                  log) \<and>
           (\<forall>e. insert_result execute
                   \<lparr>search_source_id = source_page_id, search_target_id = target_page_id,
                    search_duration = elapsed, search_paths = paths\<rparr> = Inl e \<longrightarrow>
                Insert_result_failed e \<in> set log)"
proof (cases "paths = []")
  case True
  then show ?thesis
    using assms(1,2,3)
    by (auto simp: shortest_paths_route_def fetch_page_or_invalid_def record_search_def
        split: sum.splits)
next
  case False
  then have "fetch_wikipedia_pages_info (remdups (map py_str_int (concat paths))) db = Inr info"
    using assms(4) by simp
  then show ?thesis
    using assms(1,2,3) False
    by (auto simp: shortest_paths_route_def fetch_page_or_invalid_def record_search_def
        split: sum.splits)
qed

theorem insert_failure_contained_witness:
  "\<exists>log log'.
     shortest_paths_route underscore_title blank_title ascii_lower accept_positive_id ids_as_info
       lost_connection 5 diamond_store \<lparr>json_source = ''a'', json_target = ''D''\<rparr> =
       Inr (\<lparr>sourcePageTitle = ''A'', targetPageTitle = ''D'',
             isSourceRedirected = False, isTargetRedirected = False,
             response_paths = [[1, 3, 4], [1, 2, 4]],
             response_pages = Pages_info [''3'', ''1'', ''2'', ''4'']\<rparr>, log) \<and>
     Insert_result_failed (OperationalError ''server closed the connection'') \<in> set log \<and>
     shortest_paths_route underscore_title blank_title ascii_lower accept_positive_id ids_as_info
       working_connection 5 diamond_store \<lparr>json_source = ''a'', json_target = ''D''\<rparr> =
       Inr (\<lparr>sourcePageTitle = ''A'', targetPageTitle = ''D'',
             isSourceRedirected = False, isTargetRedirected = False,
             response_paths = [[1, 3, 4], [1, 2, 4]],
             response_pages = Pages_info [''3'', ''1'', ''2'', ''4'']\<rparr>, log')"
proof -
  have s: "fetch_page underscore_title blank_title ascii_lower diamond_store
             (json_source \<lparr>json_source = ''a'', json_target = ''D''\<rparr>) = Inr (1, ''A'', False)"
    by code_simp
  have t: "fetch_page underscore_title blank_title ascii_lower diamond_store
             (json_target \<lparr>json_source = ''a'', json_target = ''D''\<rparr>) = Inr (4, ''D'', False)"
    by code_simp
  have c: "compute_shortest_paths accept_positive_id diamond_store 1 4 = Inr [[1, 3, 4], [1, 2, 4]]"
    using diamond_store_search(1)
    by (simp add: compute_shortest_paths_def accept_positive_id_def breadth_first_search_def)
  have i: "[[1, 3, 4], [1, 2, 4]] = ([] :: int list list) \<or>
      ids_as_info (remdups (map py_str_int (concat [[1, 3, 4], [1, 2, 4]]))) diamond_store =
        Inr [''3'', ''1'', ''2'', ''4'']"
    by code_simp
  have f: "insert_result lost_connection
             \<lparr>search_source_id = 1, search_target_id = 4, search_duration = 5,
              search_paths = [[1, 3, 4], [1, 2, 4]]\<rparr> =
           Inl (OperationalError ''server closed the connection'')"
    by (simp add: insert_result_def lost_connection_def)
  note lost = insert_failure_contained [of underscore_title blank_title ascii_lower diamond_store
        "\<lparr>json_source = ''a'', json_target = ''D''\<rparr>" 1 "''A''" False 4 "''D''" False
        accept_positive_id "[[1, 3, 4], [1, 2, 4]]" ids_as_info "[''3'', ''1'', ''2'', ''4'']"
        lost_connection 5, OF s t c i]
  note working = insert_failure_contained [of underscore_title blank_title ascii_lower diamond_store
        "\<lparr>json_source = ''a'', json_target = ''D''\<rparr>" 1 "''A''" False 4 "''D''" False
        accept_positive_id "[[1, 3, 4], [1, 2, 4]]" ids_as_info "[''3'', ''1'', ''2'', ''4'']"
        working_connection 5, OF s t c i]
  show ?thesis
    using lost working f by auto
qed

end
